theory Spec2Isabelle
  imports Complex_Main
begin

section \<open>JavaScript values used by the request pipeline\<close>

text \<open>
  Clock readings (\<^verbatim>\<open>Date.now()\<close>, milliseconds), delays, token counts and the numeric
  fields of the configurations are JavaScript numbers.  They are modelled as exact reals:
  rounding of IEEE doubles, \<^verbatim>\<open>Infinity\<close> and \<^verbatim>\<open>NaN\<close> arising from arithmetic are outside
  the model (a window length of zero, which would divide by zero, is excluded by hypothesis
  wherever a result depends on it).  HTTP status codes and retry counts are naturals.
\<close>

text \<open>
  Strings are lists of code units below 256, which is how the values of response headers
  arrive (they are decoded as Latin-1).  The result of \<^verbatim>\<open>parseInt(s, 10)\<close> is \<^verbatim>\<open>NaN\<close> or
  an integer that is a double; \<open>-0\<close> is not told from \<open>0\<close>.
\<close>

datatype jsint = NaN | Num int

text \<open>
  The white space that \<^verbatim>\<open>parseInt\<close> skips: tab, line feed, vertical tab, form feed,
  carriage return, space and, above ASCII, the no-break space U+00A0.  The other white
  space characters of the language lie beyond code unit 255.
\<close>

definition isWhiteSpace :: "char \<Rightarrow> bool" where
  "isWhiteSpace c =
     (c \<in> set [CHR 0x09, CHR 0x0A, CHR 0x0B, CHR 0x0C, CHR 0x0D, CHR '' '', CHR 0xA0])"

definition isDigit :: "char \<Rightarrow> bool" where
  "isDigit c = (48 \<le> (of_char c :: nat) \<and> (of_char c :: nat) \<le> 57)"

definition digitsValue :: "string \<Rightarrow> int" where
  "digitsValue ds = foldl (\<lambda>acc c. 10 * acc + (int (of_char c) - 48)) 0 ds"

text \<open>
  The conversion of an integer to the nearest double, ties to the even significand: an
  integer below \<open>2^53\<close> in magnitude is a double; a larger one keeps its 53 leading bits,
  rounded.  The runtime turns a result of magnitude \<open>2^1024\<close> or more into \<^verbatim>\<open>Infinity\<close>,
  which \<open>jsint\<close> does not have: the conversion is meant for results below that.
\<close>

fun bitLength :: "nat \<Rightarrow> nat" where
  "bitLength n = (if n = 0 then 0 else Suc (bitLength (n div 2)))"

declare bitLength.simps [simp del]

definition toDouble :: "int \<Rightarrow> int" where
  "toDouble m =
     (let a = nat \<bar>m\<bar>
      in if a < 2 ^ 53 then m
         else
           (let e = bitLength a - 53;
                q = a div 2 ^ e;
                r = a mod 2 ^ e;
                q' = (if 2 * r > 2 ^ e \<or> (2 * r = 2 ^ e \<and> odd q) then q + 1 else q)
            in sgn m * int (q' * 2 ^ e)))"

text \<open>
  \<^verbatim>\<open>parseInt(s, 10)\<close>: leading white space is skipped, one sign is read, then the longest
  prefix of decimal digits; no digit at all gives \<^verbatim>\<open>NaN\<close>, otherwise the signed value of
  the digits as a double.
\<close>

definition parseInt10 :: "string \<Rightarrow> jsint" where
  "parseInt10 s =
     (let t = dropWhile isWhiteSpace s;
          neg = (case t of [] \<Rightarrow> False | c # _ \<Rightarrow> c = CHR ''-'');
          u = (case t of [] \<Rightarrow> [] | c # r \<Rightarrow> if c = CHR ''+'' \<or> c = CHR ''-'' then r else t);
          z = takeWhile isDigit u
      in if z = [] then NaN
         else Num (toDouble ((if neg then - 1 else 1) * digitsValue z)))"

text \<open>Truthiness of an optional parsed number: \<^verbatim>\<open>undefined\<close>, \<^verbatim>\<open>NaN\<close> and \<open>0\<close> are falsy.\<close>

fun truthyNum :: "jsint option \<Rightarrow> bool" where
  "truthyNum None = False"
| "truthyNum (Some NaN) = False"
| "truthyNum (Some (Num n)) = (n \<noteq> 0)"

text \<open>\<^verbatim>\<open>a || b\<close> on strings: the empty string is falsy.\<close>

definition strOr :: "string \<Rightarrow> string \<Rightarrow> string" where
  "strOr a b = (if a = [] then b else a)"

text \<open>Decimal rendering of a status code inside a template literal.\<close>

fun showNat :: "nat \<Rightarrow> string" where
  "showNat n =
     (if n < 10 then [''0123456789'' ! n]
      else showNat (n div 10) @ [''0123456789'' ! (n mod 10)])"

declare showNat.simps [simp del]

section \<open>Error taxonomy (src/utils/errors.ts)\<close>

text \<open>
  The class of an error object.  The specification calls these kinds Generic,
  ClientRequest, ServerFault, RateLimited, AuthFailure and ValidationFailure, in this order.
\<close>

datatype error_class =
    C_SPAPIError
  | C_SPAPIRequestError
  | C_SPAPIServerError
  | C_RateLimitError
  | C_SPAPIAuthError
  | C_SPAPIValidationError

text \<open>One entry of the \<^verbatim>\<open>errors\<close> array of an error response (src/types/sp-api.d.ts).\<close>

record api_error =
  err_code :: string
  err_message :: string
  err_details :: "string option"

text \<open>
  The \<^verbatim>\<open>details\<close> field of an error is of type \<^verbatim>\<open>unknown\<close>; the client stores either
  nothing, the first entry's own details string, or the whole array.
\<close>

datatype details = NoDetails | DetailsString string | DetailsErrors "api_error list"

record sp_error =
  cls :: error_class
  message :: string
  code :: "string option"
  statusCode :: "nat option"
  details :: details
  retryAfter :: "jsint option"

definition SPAPIError :: "string \<Rightarrow> string option \<Rightarrow> nat option \<Rightarrow> details \<Rightarrow> sp_error" where
  "SPAPIError msg c sc d =
     \<lparr>cls = C_SPAPIError, message = msg, code = c, statusCode = sc, details = d,
      retryAfter = None\<rparr>"

definition SPAPIRequestError :: "string \<Rightarrow> nat \<Rightarrow> string option \<Rightarrow> details \<Rightarrow> sp_error" where
  "SPAPIRequestError msg sc c d = (SPAPIError msg c (Some sc) d)\<lparr>cls := C_SPAPIRequestError\<rparr>"

definition SPAPIServerError :: "string \<Rightarrow> nat \<Rightarrow> string option \<Rightarrow> details \<Rightarrow> sp_error" where
  "SPAPIServerError msg sc c d = (SPAPIError msg c (Some sc) d)\<lparr>cls := C_SPAPIServerError\<rparr>"

definition RateLimitError :: "string \<Rightarrow> jsint option \<Rightarrow> details \<Rightarrow> sp_error" where
  "RateLimitError msg ra d =
     (SPAPIError msg (Some ''RATE_LIMIT_EXCEEDED'') (Some 429) d)
       \<lparr>cls := C_RateLimitError, retryAfter := ra\<rparr>"

definition SPAPIAuthError :: "string \<Rightarrow> details \<Rightarrow> sp_error" where
  "SPAPIAuthError msg d =
     (SPAPIRequestError msg 401 (Some ''UNAUTHORIZED'') d)\<lparr>cls := C_SPAPIAuthError\<rparr>"

definition SPAPIValidationError :: "string \<Rightarrow> details \<Rightarrow> sp_error" where
  "SPAPIValidationError msg d =
     (SPAPIRequestError msg 400 (Some ''VALIDATION_ERROR'') d)\<lparr>cls := C_SPAPIValidationError\<rparr>"

text \<open>\<^verbatim>\<open>error instanceof RateLimitError\<close>: no class extends \<^verbatim>\<open>RateLimitError\<close>.\<close>

definition instanceofRateLimitError :: "sp_error \<Rightarrow> bool" where
  "instanceofRateLimitError e = (cls e = C_RateLimitError)"

text \<open>\<^verbatim>\<open>error instanceof SPAPIRequestError\<close>: the class itself and its two subclasses.\<close>

definition instanceofSPAPIRequestError :: "sp_error \<Rightarrow> bool" where
  "instanceofSPAPIRequestError e =
     (cls e \<in> {C_SPAPIRequestError, C_SPAPIAuthError, C_SPAPIValidationError})"

text \<open>
  What a \<^verbatim>\<open>catch\<close> clause can receive: an error of the taxonomy, or any other exception
  (a plain \<^verbatim>\<open>Error\<close> with its message), which is not an instance of \<^verbatim>\<open>SPAPIError\<close>.
\<close>

datatype thrown = Typed sp_error | Plain string

section \<open>API client (sp-api-client)\<close>

record RetryConfig =
  maxRetries :: nat
  retryableStatusCodes :: "nat list"
  retryDelay :: real
  backoffMultiplier :: real

definition DEFAULT_RETRY_CONFIG :: RetryConfig where
  "DEFAULT_RETRY_CONFIG =
     \<lparr>maxRetries = 3, retryableStatusCodes = [429, 500, 502, 503, 504],
      retryDelay = 1000, backoffMultiplier = 2\<rparr>"

text \<open>
  A transport response.  Of the body only the \<^verbatim>\<open>errors\<close> array matters to the client:
  \<open>data_errors\<close> is \<open>None\<close> when \<^verbatim>\<open>response.data\<close> or \<^verbatim>\<open>response.data.errors\<close> is absent.
\<close>

record response =
  status :: nat
  headers :: "string \<rightharpoonup> string"
  data_errors :: "api_error list option"

text \<open>
  \<^verbatim>\<open>createErrorFromResponse\<close>.  The entries of the array are objects, so the inner test
  \<^verbatim>\<open>if (firstError)\<close> always succeeds on a non-empty array.
\<close>

definition createErrorFromResponse :: "response \<Rightarrow> sp_error" where
  "createErrorFromResponse r =
     (let statusCode = status r;
          (msg, c, d) =
             (case data_errors r of
                Some (firstError # rest) \<Rightarrow>
                  (err_message firstError, Some (err_code firstError),
                   if length (firstError # rest) > 1 then DetailsErrors (firstError # rest)
                   else (case err_details firstError of
                           None \<Rightarrow> NoDetails | Some s \<Rightarrow> DetailsString s))
              | _ \<Rightarrow> (''SP-API request failed with status '' @ showNat statusCode,
                       None, NoDetails))
      in if statusCode = 429 then
           RateLimitError (strOr msg ''Rate limit exceeded'')
             (case headers r ''retry-after'' of
                None \<Rightarrow> None
              | Some h \<Rightarrow> if h = [] then None else Some (parseInt10 h))
             d
         else if statusCode = 401 \<or> statusCode = 403 then
           SPAPIAuthError (strOr msg ''Authentication failed'') d
         else if statusCode = 400 then
           SPAPIValidationError (strOr msg ''Invalid request'') d
         else if statusCode \<ge> 400 \<and> statusCode < 500 then
           SPAPIRequestError msg statusCode c d
         else if statusCode \<ge> 500 then
           SPAPIServerError msg statusCode c d
         else SPAPIError msg c (Some statusCode) d)"

text \<open>
  The rejection of the transport call: an Axios error (with the response it may carry, its
  \<^verbatim>\<open>code\<close> and its message).
\<close>

record axios_error =
  ax_response :: "response option"
  ax_code :: "string option"
  ax_message :: string

definition createErrorFromAxiosError :: "axios_error \<Rightarrow> sp_error" where
  "createErrorFromAxiosError error =
     (case ax_response error of
        Some r \<Rightarrow> createErrorFromResponse r
      | None \<Rightarrow>
          if ax_code error = Some ''ECONNABORTED'' \<or> ax_code error = Some ''ETIMEDOUT'' then
            SPAPIError ''Request timeout'' None None NoDetails
          else if ax_code error = Some ''ENOTFOUND'' \<or> ax_code error = Some ''ECONNREFUSED'' then
            SPAPIError ''Network error: Unable to reach SP-API'' None None NoDetails
          else SPAPIError (strOr (ax_message error) ''HTTP request failed'') (ax_code error)
                 None NoDetails)"

definition isRetryableError :: "RetryConfig \<Rightarrow> thrown \<Rightarrow> bool" where
  "isRetryableError cfg error =
     (case error of
        Plain _ \<Rightarrow> False
      | Typed e \<Rightarrow>
          (case statusCode e of
             None \<Rightarrow> False
           | Some sc \<Rightarrow> if sc = 0 then False else sc \<in> set (retryableStatusCodes cfg)))"

text \<open>
  The collaborators of one call to \<^verbatim>\<open>request\<close>, as seen from the client: whether
  \<^verbatim>\<open>rateLimiter.acquire(key)\<close> returns or throws, and, for the attempt with a given
  attempt number, what \<^verbatim>\<open>tokenManager.getAccessToken()\<close> and the transport call yield.
\<close>

datatype transport =
    Resolved response
  | AxiosRejected axios_error
  | Rejected "string option"

record env =
  acquireOutcome :: "string \<Rightarrow> string option"
  tokenOutcome :: "nat \<Rightarrow> string + string"
  transportOutcome :: "nat \<Rightarrow> transport"

text \<open>The calls the client makes to its collaborators, in order.\<close>

datatype event = AcquireSlot string | GetToken | Send | Sleep real

text \<open>
  \<^verbatim>\<open>makeRequest\<close> for one attempt.  Building the URL and signing are pure, are taken
  not to throw and are not traced.  A failing \<^verbatim>\<open>getAccessToken\<close> throws before the \<^verbatim>\<open>try\<close> block, so its error
  is not wrapped.
\<close>

definition makeRequest :: "env \<Rightarrow> nat \<Rightarrow> event list \<times> (thrown + response)" where
  "makeRequest e n =
     (case tokenOutcome e n of
        Inl err \<Rightarrow> ([GetToken], Inl (Plain err))
      | Inr accessToken \<Rightarrow>
          (case transportOutcome e n of
             Resolved r \<Rightarrow>
               if status r \<ge> 400 then ([GetToken, Send], Inl (Typed (createErrorFromResponse r)))
               else ([GetToken, Send], Inr r)
           | AxiosRejected ae \<Rightarrow> ([GetToken, Send], Inl (Typed (createErrorFromAxiosError ae)))
           | Rejected m \<Rightarrow>
               ([GetToken, Send],
                Inl (Typed (SPAPIError
                  (''Unexpected error: '' @ (case m of Some s \<Rightarrow> s | None \<Rightarrow> ''Unknown error''))
                  None None NoDetails)))))"

text \<open>The delay slept before the retry that follows attempt \<open>attemptNumber\<close>.\<close>

definition retrySleep :: "RetryConfig \<Rightarrow> nat \<Rightarrow> thrown \<Rightarrow> real" where
  "retrySleep cfg attemptNumber error =
     (let delay = retryDelay cfg * backoffMultiplier cfg ^ attemptNumber
      in case error of
           Typed e \<Rightarrow>
             if instanceofRateLimitError e \<and> truthyNum (retryAfter e) then
               (case retryAfter e of Some (Num n) \<Rightarrow> of_int n * 1000 | _ \<Rightarrow> delay)
             else delay
         | Plain _ \<Rightarrow> delay)"

function requestWithRetry :: "RetryConfig \<Rightarrow> env \<Rightarrow> nat \<Rightarrow> event list \<times> (thrown + response)" where
  "requestWithRetry cfg e attemptNumber =
     (case makeRequest e attemptNumber of
        (evs, Inr r) \<Rightarrow> (evs, Inr r)
      | (evs, Inl error) \<Rightarrow>
          if attemptNumber < maxRetries cfg \<and> isRetryableError cfg error then
            (case requestWithRetry cfg e (attemptNumber + 1) of
               (evs', res) \<Rightarrow> (evs @ [Sleep (retrySleep cfg attemptNumber error)] @ evs', res))
          else (evs, Inl error))"
  by pat_completeness auto
termination
  by (relation "measure (\<lambda>(cfg, e, attemptNumber). maxRetries cfg - attemptNumber)") auto

declare requestWithRetry.simps [simp del]

definition request :: "RetryConfig \<Rightarrow> env \<Rightarrow> string \<Rightarrow> event list \<times> (thrown + response)" where
  "request cfg e endpointKey =
     (case acquireOutcome e endpointKey of
        Some err \<Rightarrow> ([AcquireSlot endpointKey], Inl (Plain err))
      | None \<Rightarrow>
          (case requestWithRetry cfg e 0 of
             (evs, res) \<Rightarrow> (AcquireSlot endpointKey # evs, res)))"

section \<open>Access-token cache (TokenManager)\<close>

record CachedToken =
  accessToken :: string
  expiresAt :: real

text \<open>
  What the POST to the authorization endpoint yields: a token response
  (\<^verbatim>\<open>access_token\<close>, \<^verbatim>\<open>expires_in\<close>), an Axios error (a network failure or a response
  outside 2xx) with \<^verbatim>\<open>error.response?.data?.error_description\<close> and \<^verbatim>\<open>error.message\<close>,
  or any other exception.
\<close>

datatype post_outcome =
    PostOk string real
  | PostAxiosError "string option" string
  | PostOtherError string

text \<open>
  The state of a token manager.  \<open>posts\<close> is a history variable: the number of calls to
  \<^verbatim>\<open>axios.post\<close> issued so far; the \<open>n\<close>-th call receives the outcome \<open>post n\<close>.
\<close>

record TokenManager =
  cachedToken :: "CachedToken option"
  posts :: nat

definition isTokenValid :: "CachedToken \<Rightarrow> real \<Rightarrow> bool" where
  "isTokenValid token now = (let bufferTime = 5 * 60 * 1000 in expiresAt token > now + bufferTime)"

definition refreshAccessToken ::
  "(nat \<Rightarrow> post_outcome) \<Rightarrow> real \<Rightarrow> TokenManager \<Rightarrow> (string + string) \<times> TokenManager" where
  "refreshAccessToken post now tm =
     (let tm' = tm\<lparr>posts := posts tm + 1\<rparr>
      in case post (posts tm) of
           PostOk access_token expires_in \<Rightarrow>
             (Inr access_token,
              tm'\<lparr>cachedToken :=
                    Some \<lparr>accessToken = access_token, expiresAt = now + expires_in * 1000\<rparr>\<rparr>)
         | PostAxiosError description msg \<Rightarrow>
             (Inl (''Failed to refresh LWA access token: '' @
                   strOr (case description of None \<Rightarrow> [] | Some d \<Rightarrow> d) msg),
              tm')
         | PostOtherError msg \<Rightarrow> (Inl msg, tm'))"

text \<open>
  \<^verbatim>\<open>getAccessToken\<close>; \<open>nowCheck\<close> is the clock read by \<^verbatim>\<open>isTokenValid\<close>, \<open>nowStore\<close> the
  one read when the new token is cached.
\<close>

definition getAccessToken ::
  "(nat \<Rightarrow> post_outcome) \<Rightarrow> real \<Rightarrow> real \<Rightarrow> TokenManager \<Rightarrow> (string + string) \<times> TokenManager" where
  "getAccessToken post nowCheck nowStore tm =
     (case cachedToken tm of
        Some token \<Rightarrow>
          if isTokenValid token nowCheck then (Inr (accessToken token), tm)
          else refreshAccessToken post nowStore tm
      | None \<Rightarrow> refreshAccessToken post nowStore tm)"

definition clearCache :: "TokenManager \<Rightarrow> TokenManager" where
  "clearCache tm = tm\<lparr>cachedToken := None\<rparr>"

definition hasCachedToken :: "real \<Rightarrow> TokenManager \<Rightarrow> bool" where
  "hasCachedToken now tm =
     (case cachedToken tm of None \<Rightarrow> False | Some token \<Rightarrow> isTokenValid token now)"

section \<open>Rate limiter (token bucket with a wait queue)\<close>

record RateLimitConfig =
  maxRequests :: real
  windowMs :: real
  queueRequests :: "bool option"

record TokenBucket =
  tokens :: real
  lastRefill :: real

text \<open>
  A queued request.  Its \<^verbatim>\<open>resolve\<close> callback is identified with the number of the caller
  it completes: the \<open>n\<close>-th promise created by the queueing path of \<^verbatim>\<open>acquire\<close>.
\<close>

record QueuedRequest =
  key :: string
  resolve :: nat
  enqueueTime :: real

text \<open>
  The limiter.  \<open>buckets\<close>, \<open>queue\<close> and \<open>processingQueue\<close> are the fields of the class;
  \<open>callers\<close> and \<open>resolved\<close> are history variables: the number of promises created so
  far and the requests whose \<^verbatim>\<open>resolve()\<close> has been called, in the order of the calls.
  The configuration map is fixed at construction and is passed to every operation.
\<close>

record RateLimiter =
  buckets :: "string \<rightharpoonup> TokenBucket"
  queue :: "QueuedRequest list"
  processingQueue :: bool
  callers :: nat
  resolved :: "QueuedRequest list"

definition newRateLimiter :: RateLimiter where
  "newRateLimiter =
     \<lparr>buckets = Map.empty, queue = [], processingQueue = False, callers = 0, resolved = []\<rparr>"

definition DEFAULT_RATE_LIMITS :: "string \<rightharpoonup> RateLimitConfig" where
  "DEFAULT_RATE_LIMITS =
     [''orders'' \<mapsto> \<lparr>maxRequests = 1, windowMs = 60 * 1000, queueRequests = Some True\<rparr>,
      ''inventory'' \<mapsto> \<lparr>maxRequests = 2, windowMs = 1000, queueRequests = Some True\<rparr>,
      ''reports'' \<mapsto> \<lparr>maxRequests = 1, windowMs = 45 * 1000, queueRequests = Some True\<rparr>,
      ''products'' \<mapsto> \<lparr>maxRequests = 5, windowMs = 1000, queueRequests = Some True\<rparr>,
      ''default'' \<mapsto> \<lparr>maxRequests = 1, windowMs = 1000, queueRequests = Some True\<rparr>]"

definition getOrCreateBucket ::
  "string \<Rightarrow> RateLimitConfig \<Rightarrow> real \<Rightarrow> RateLimiter \<Rightarrow> TokenBucket \<times> RateLimiter" where
  "getOrCreateBucket k config now rl =
     (case buckets rl k of
        Some bucket \<Rightarrow> (bucket, rl)
      | None \<Rightarrow>
          (let bucket = \<lparr>tokens = maxRequests config, lastRefill = now\<rparr>
           in (bucket, rl\<lparr>buckets := (buckets rl)(k \<mapsto> bucket)\<rparr>)))"

text \<open>
  \<^verbatim>\<open>refillBucket\<close>.  The count is computed here in exact arithmetic, where the runtime
  rounds every operation to a double.  What is proved of the count below, the cap, the
  lower bound and that a refill after a non-negative time does not lower it, holds of the
  rounded count as well; no equality between counts reached along different sequences of
  refills is stated.
\<close>

definition refillBucket :: "TokenBucket \<Rightarrow> RateLimitConfig \<Rightarrow> real \<Rightarrow> TokenBucket" where
  "refillBucket bucket config now =
     (let timePassed = now - lastRefill bucket;
          tokensToAdd = (timePassed / windowMs config) * maxRequests config
      in \<lparr>tokens = min (maxRequests config) (tokens bucket + tokensToAdd), lastRefill = now\<rparr>)"

definition calculateWaitTime :: "TokenBucket \<Rightarrow> RateLimitConfig \<Rightarrow> real" where
  "calculateWaitTime bucket config =
     (let tokensNeeded = 1 - tokens bucket
      in (tokensNeeded / maxRequests config) * windowMs config)"

text \<open>
  The two errors \<^verbatim>\<open>acquire\<close> throws: no configuration for the key, and rate limit exceeded
  with the number of seconds \<^verbatim>\<open>Math.ceil(waitTime / 1000)\<close> placed in the message.
\<close>

datatype limiter_error = NoConfiguration string | RateLimitExceeded string int

text \<open>
  How a call to \<^verbatim>\<open>acquire\<close> ends: it returns at once, it throws, or it returns a promise
  that stays pending until the queue calls its \<^verbatim>\<open>resolve\<close>.
\<close>

datatype acquire_result = Acquired | Failed limiter_error | Pending nat

text \<open>
  The entry of \<^verbatim>\<open>processQueue\<close>: a call while a drain loop is marked active returns at
  once, otherwise the flag is set and a loop starts.  The loop itself runs as a sequence
  of iterations (\<open>processQueueIteration\<close> below).
\<close>

definition processQueue :: "RateLimiter \<Rightarrow> RateLimiter" where
  "processQueue rl = (if processingQueue rl then rl else rl\<lparr>processingQueue := True\<rparr>)"

text \<open>
  \<^verbatim>\<open>acquire\<close>.  \<open>tCreate\<close>, \<open>tRefill\<close> and \<open>tEnqueue\<close> are the three clock readings, taken
  in \<^verbatim>\<open>getOrCreateBucket\<close> (when the bucket is new), in \<^verbatim>\<open>refillBucket\<close> and when the request
  is pushed.
\<close>

definition acquire ::
  "(string \<rightharpoonup> RateLimitConfig) \<Rightarrow> string \<Rightarrow> real \<Rightarrow> real \<Rightarrow> real \<Rightarrow> RateLimiter
     \<Rightarrow> acquire_result \<times> RateLimiter" where
  "acquire configs k tCreate tRefill tEnqueue rl =
     (case configs k of
        None \<Rightarrow> (Failed (NoConfiguration k), rl)
      | Some config \<Rightarrow>
          (case getOrCreateBucket k config tCreate rl of
             (bucket0, rl1) \<Rightarrow>
               (let bucket = refillBucket bucket0 config tRefill
                in if tokens bucket \<ge> 1 then
                     (Acquired,
                      rl1\<lparr>buckets := (buckets rl1)(k \<mapsto> bucket\<lparr>tokens := tokens bucket - 1\<rparr>)\<rparr>)
                   else if queueRequests config = Some False then
                     (Failed (RateLimitExceeded k
                        \<lceil>calculateWaitTime bucket config / 1000\<rceil>),
                      rl1\<lparr>buckets := (buckets rl1)(k \<mapsto> bucket)\<rparr>)
                   else
                     (Pending (callers rl1),
                      processQueue
                        (rl1\<lparr>buckets := (buckets rl1)(k \<mapsto> bucket),
                            queue := queue rl1 @
                              [\<lparr>key = k, resolve = callers rl1, enqueueTime = tEnqueue\<rparr>],
                            callers := callers rl1 + 1\<rparr>)))))"

text \<open>
  One iteration of the \<^verbatim>\<open>while\<close> loop of \<^verbatim>\<open>processQueue\<close>, from the test of the loop
  condition to the end of the body: the loop ends on an empty queue and clears the flag;
  a request whose key has no configuration is removed and resolved; otherwise the bucket of
  the head request is refilled and the request is granted a token, removed and resolved, or
  the loop goes to sleep for the computed time.  The queue holds objects only, so the
  branch for a missing head entry is never taken.
\<close>

datatype iteration = Exited | Continue | Sleeping real

definition processQueueIteration ::
  "(string \<rightharpoonup> RateLimitConfig) \<Rightarrow> real \<Rightarrow> real \<Rightarrow> RateLimiter \<Rightarrow> iteration \<times> RateLimiter" where
  "processQueueIteration configs tCreate tRefill rl =
     (case queue rl of
        [] \<Rightarrow> (Exited, rl\<lparr>processingQueue := False\<rparr>)
      | entry # rest \<Rightarrow>
          (case configs (key entry) of
             None \<Rightarrow> (Continue, rl\<lparr>queue := rest, resolved := resolved rl @ [entry]\<rparr>)
           | Some config \<Rightarrow>
               (case getOrCreateBucket (key entry) config tCreate rl of
                  (bucket0, rl1) \<Rightarrow>
                    (let bucket = refillBucket bucket0 config tRefill
                     in if tokens bucket \<ge> 1 then
                          (Continue,
                           rl1\<lparr>buckets := (buckets rl1)
                                  (key entry \<mapsto> bucket\<lparr>tokens := tokens bucket - 1\<rparr>),
                               queue := rest,
                               resolved := resolved rl1 @ [entry]\<rparr>)
                        else
                          (Sleeping (calculateWaitTime bucket config),
                           rl1\<lparr>buckets := (buckets rl1)(key entry \<mapsto> bucket)\<rparr>)))))"

definition getAvailableTokens ::
  "(string \<rightharpoonup> RateLimitConfig) \<Rightarrow> string \<Rightarrow> real \<Rightarrow> RateLimiter \<Rightarrow> real \<times> RateLimiter" where
  "getAvailableTokens configs k now rl =
     (case configs k of
        None \<Rightarrow> (0, rl)
      | Some config \<Rightarrow>
          (case buckets rl k of
             None \<Rightarrow> (maxRequests config, rl)
           | Some bucket0 \<Rightarrow>
               (let bucket = refillBucket bucket0 config now
                in (of_int \<lfloor>tokens bucket\<rfloor>, rl\<lparr>buckets := (buckets rl)(k \<mapsto> bucket)\<rparr>))))"

definition reset :: "RateLimiter \<Rightarrow> RateLimiter" where
  "reset rl = rl\<lparr>buckets := Map.empty, queue := [], processingQueue := False\<rparr>"

text \<open>
  The limiter as a transition system.  The awaits of the drain loop let its iterations
  interleave with every other operation, and after a \<^verbatim>\<open>reset\<close> a loop that was asleep is
  still alive while a new one may start; so an iteration may happen between any two
  operations.  Every execution of the class is a sequence of these operations.
\<close>

datatype operation =
    Acquire string real real real
  | Iterate real real
  | Available string real
  | Reset

fun step :: "(string \<rightharpoonup> RateLimitConfig) \<Rightarrow> operation \<Rightarrow> RateLimiter \<Rightarrow> RateLimiter" where
  "step configs (Acquire k tCreate tRefill tEnqueue) rl =
     snd (acquire configs k tCreate tRefill tEnqueue rl)"
| "step configs (Iterate tCreate tRefill) rl = snd (processQueueIteration configs tCreate tRefill rl)"
| "step configs (Available k now) rl = snd (getAvailableTokens configs k now rl)"
| "step configs Reset rl = reset rl"

fun run :: "(string \<rightharpoonup> RateLimitConfig) \<Rightarrow> operation list \<Rightarrow> RateLimiter \<Rightarrow> RateLimiter" where
  "run configs [] rl = rl"
| "run configs (c # cs) rl = run configs cs (step configs c rl)"

text \<open>The clock readings of an operation, in the order they are taken.\<close>

fun readings :: "operation \<Rightarrow> real list" where
  "readings (Acquire k tCreate tRefill tEnqueue) = [tCreate, tRefill, tEnqueue]"
| "readings (Iterate tCreate tRefill) = [tCreate, tRefill]"
| "readings (Available k now) = [now]"
| "readings Reset = []"

text \<open>The callers whose promise has been created and not resolved.\<close>

definition pendingCallers :: "RateLimiter \<Rightarrow> nat list" where
  "pendingCallers rl = filter (\<lambda>n. n \<notin> set (map resolve (resolved rl))) [0..<callers rl]"

text \<open>
  A configuration map is well formed when every capacity is non-negative and every window
  is positive.
\<close>

definition wellFormed :: "(string \<rightharpoonup> RateLimitConfig) \<Rightarrow> bool" where
  "wellFormed configs =
     (\<forall>k config. configs k = Some config \<longrightarrow> 0 \<le> maxRequests config \<and> 0 < windowMs config)"

text \<open>
  Invariants of the limiter.  A bucket is good at time \<open>t\<close> when its count lies between
  zero and the capacity and its last refill is not after \<open>t\<close>; \<open>bucketsOk\<close> asks this of
  every bucket, which must belong to a configured key.  \<open>inOrder\<close>: the callers resolved so
  far, followed by the callers in the queue, are in the order of their numbers, and every
  number has been given out; \<open>inArrivalOrder\<close>: they are exactly the callers numbered so
  far, in the order of their numbers.  \<open>forgotten n\<close>: caller \<open>n\<close> has a promise, is not in the queue
  and has not been resolved.
\<close>

definition goodBucket :: "RateLimitConfig \<Rightarrow> real \<Rightarrow> TokenBucket \<Rightarrow> bool" where
  "goodBucket config t bucket =
     (0 \<le> tokens bucket \<and> tokens bucket \<le> maxRequests config \<and> lastRefill bucket \<le> t)"

definition bucketsOk :: "(string \<rightharpoonup> RateLimitConfig) \<Rightarrow> real \<Rightarrow> RateLimiter \<Rightarrow> bool" where
  "bucketsOk configs t rl =
     (\<forall>k bucket. buckets rl k = Some bucket \<longrightarrow>
        (\<exists>config. configs k = Some config \<and> goodBucket config t bucket))"

definition inOrder :: "RateLimiter \<Rightarrow> bool" where
  "inOrder rl =
     (sorted_wrt (<) (map resolve (resolved rl @ queue rl)) \<and>
      (\<forall>entry \<in> set (resolved rl @ queue rl). resolve entry < callers rl))"

definition inArrivalOrder :: "RateLimiter \<Rightarrow> bool" where
  "inArrivalOrder rl = (map resolve (resolved rl @ queue rl) = [0..<callers rl])"

definition forgotten :: "nat \<Rightarrow> RateLimiter \<Rightarrow> bool" where
  "forgotten n rl =
     (n < callers rl \<and> n \<notin> resolve ` set (queue rl) \<and> n \<notin> resolve ` set (resolved rl))"

text \<open>
  \<open>keepsLevel config level t b\<close>: the bucket \<open>b\<close> of a key, when there is one, holds at
  least \<open>level\<close> and at most the capacity, and was last refilled at \<open>t\<close> or before.
\<close>

definition keepsLevel :: "RateLimitConfig \<Rightarrow> real \<Rightarrow> real \<Rightarrow> TokenBucket option \<Rightarrow> bool" where
  "keepsLevel config level t b =
     (case b of
        None \<Rightarrow> True
      | Some bucket \<Rightarrow>
          level \<le> tokens bucket \<and> tokens bucket \<le> maxRequests config \<and> lastRefill bucket \<le> t)"

text \<open>
  Operations that are no acquisition for the key \<open>k\<close>: a call of \<open>acquire\<close> for another
  key, an iteration of the drain loop whose head request is for another key (or that finds
  the queue empty), a query, a reset.  \<open>quietRun\<close> asks this of every operation of a
  sequence, in the state in which it runs.
\<close>

fun quietFor :: "string \<Rightarrow> operation \<Rightarrow> RateLimiter \<Rightarrow> bool" where
  "quietFor k (Acquire k' tCreate tRefill tEnqueue) rl = (k' \<noteq> k)"
| "quietFor k (Iterate tCreate tRefill) rl =
     (case queue rl of [] \<Rightarrow> True | entry # rest \<Rightarrow> key entry \<noteq> k)"
| "quietFor k (Available k' now) rl = True"
| "quietFor k Reset rl = True"

fun quietRun :: "(string \<rightharpoonup> RateLimitConfig) \<Rightarrow> string \<Rightarrow> operation list \<Rightarrow> RateLimiter \<Rightarrow> bool" where
  "quietRun configs k [] rl = True"
| "quietRun configs k (c # cs) rl = (quietFor k c rl \<and> quietRun configs k cs (step configs c rl))"

text \<open>Predicates on the trace of a call, used to state its shape.\<close>

fun isAcquireSlot :: "event \<Rightarrow> bool" where
  "isAcquireSlot (AcquireSlot k) = True"
| "isAcquireSlot ev = False"

fun isSleep :: "event \<Rightarrow> bool" where
  "isSleep (Sleep d) = True"
| "isSleep ev = False"

text \<open>\<open>resumesAt x evs\<close>: every sleep in \<open>evs\<close> is directly followed by the event \<open>x\<close>.\<close>

fun resumesAt :: "event \<Rightarrow> event list \<Rightarrow> bool" where
  "resumesAt x [] = True"
| "resumesAt x [ev] = (\<not> isSleep ev)"
| "resumesAt x (ev # ev' # evs) = ((isSleep ev \<longrightarrow> ev' = x) \<and> resumesAt x (ev' # evs))"

text \<open>The fixed message that replaces an empty one for the statuses 429, 401, 403 and 400.\<close>

definition fallbackMessage :: "nat \<Rightarrow> string" where
  "fallbackMessage sc =
     (if sc = 429 then ''Rate limit exceeded''
      else if sc = 401 \<or> sc = 403 then ''Authentication failed''
      else ''Invalid request'')"

fun isSend :: "event \<Rightarrow> bool" where
  "isSend Send = True"
| "isSend ev = False"

section \<open>Concrete inputs\<close>

text \<open>
  Responses, collaborators, limiter configurations and runs used to evaluate the model.
  In the runs an iteration of the drain loop follows at once the acquisition that starts
  the loop and every iteration that grants a token, as the loop runs on without a pause
  there; the other iterations come after the sleep computed by the previous one.
\<close>

definition okResponse :: response where
  "okResponse = \<lparr>status = 200, headers = Map.empty, data_errors = None\<rparr>"

definition unavailable :: response where
  "unavailable = \<lparr>status = 503, headers = Map.empty, data_errors = None\<rparr>"

definition tooManyRequests60 :: response where
  "tooManyRequests60 = \<lparr>status = 429, headers = [''retry-after'' \<mapsto> ''60''], data_errors = None\<rparr>"

definition tooManyRequests0 :: response where
  "tooManyRequests0 = \<lparr>status = 429, headers = [''retry-after'' \<mapsto> ''0''], data_errors = None\<rparr>"

definition emptyMessage429 :: response where
  "emptyMessage429 =
     \<lparr>status = 429, headers = Map.empty,
      data_errors = Some [\<lparr>err_code = ''QuotaExceeded'', err_message = [], err_details = None\<rparr>]\<rparr>"

fun failOnceWith :: "response \<Rightarrow> nat \<Rightarrow> transport" where
  "failOnceWith r 0 = Resolved r"
| "failOnceWith r (Suc n) = Resolved okResponse"

fun alwaysToken :: "nat \<Rightarrow> string + string" where
  "alwaysToken n = Inr ''Atza|token''"

fun neverThrows :: "string \<Rightarrow> string option" where
  "neverThrows k = None"

fun alwaysUnavailable :: "nat \<Rightarrow> transport" where
  "alwaysUnavailable n = Resolved unavailable"

definition flakyEnv :: env where
  "flakyEnv = \<lparr>acquireOutcome = neverThrows, tokenOutcome = alwaysToken,
                transportOutcome = failOnceWith unavailable\<rparr>"

definition retryAfterZeroEnv :: env where
  "retryAfterZeroEnv = \<lparr>acquireOutcome = neverThrows, tokenOutcome = alwaysToken,
                transportOutcome = failOnceWith tooManyRequests0\<rparr>"

definition always503Env :: env where
  "always503Env = \<lparr>acquireOutcome = neverThrows, tokenOutcome = alwaysToken,
                transportOutcome = alwaysUnavailable\<rparr>"

definition freshManager :: TokenManager where
  "freshManager = \<lparr>cachedToken = Some \<lparr>accessToken = ''Atza|cached'', expiresAt = 3600000\<rparr>, posts = 1\<rparr>"

definition staleManager :: TokenManager where
  "staleManager = \<lparr>cachedToken = Some \<lparr>accessToken = ''Atza|old'', expiresAt = 200000\<rparr>, posts = 1\<rparr>"

fun invalidGrant :: "nat \<Rightarrow> post_outcome" where
  "invalidGrant n = PostAxiosError (Some ''The provided refresh token is invalid'')
     ''Request failed with status code 400''"

fun grantsToken :: "nat \<Rightarrow> post_outcome" where
  "grantsToken n = PostOk ''Atza|new'' 3600"

definition oneSlot :: "string \<rightharpoonup> RateLimitConfig" where
  "oneSlot = [''k'' \<mapsto> \<lparr>maxRequests = 1, windowMs = 1000, queueRequests = Some True\<rparr>]"

definition twoSlots :: "string \<rightharpoonup> RateLimitConfig" where
  "twoSlots = [''test'' \<mapsto> \<lparr>maxRequests = 2, windowMs = 1000, queueRequests = Some True\<rparr>]"

definition strandingRun :: "operation list" where
  "strandingRun = [Acquire ''k'' 0 0 0, Acquire ''k'' 0 0 0, Iterate 0 0, Reset]"

definition overtakingRun :: "operation list" where
  "overtakingRun =
     [Acquire ''k'' 0 0 0, Acquire ''k'' 0 0 0, Iterate 0 0, Reset,
      Acquire ''k'' 0 0 0, Acquire ''k'' 0 0 0, Iterate 0 0,
      Iterate 1000 1000, Iterate 1000 1000, Iterate 1000 1000]"

definition halfUsed :: RateLimiter where
  "halfUsed = run twoSlots [Acquire ''test'' 0 0 0] newRateLimiter"

definition busy :: "operation list" where
  "busy = [Acquire ''k'' 0 0 0, Acquire ''k'' 0 0 0, Iterate 0 0, Available ''k'' 500]"

section \<open>Evaluation rules\<close>

lemmas client_defs = request_def requestWithRetry.simps makeRequest_def DEFAULT_RETRY_CONFIG_def
     createErrorFromResponse_def SPAPIServerError_def SPAPIError_def RateLimitError_def isRetryableError_def retrySleep_def instanceofRateLimitError_def
     okResponse_def unavailable_def tooManyRequests0_def tooManyRequests60_def emptyMessage429_def
     parseInt10_def isWhiteSpace_def isDigit_def digitsValue_def toDouble_def strOr_def
     showNat.simps

lemmas limiter_defs = acquire_def getOrCreateBucket_def refillBucket_def calculateWaitTime_def
  processQueue_def processQueueIteration_def getAvailableTokens_def reset_def newRateLimiter_def
  pendingCallers_def Let_def

section \<open>Properties of the error classification\<close>

text \<open>
  C10. A backend response with status 401 or 403 is classified as an authentication
  failure whose status code is 401 and whose code is UNAUTHORIZED: for a 403 response the
  original status is not kept on the error, the constructor fixes 401.
\<close>

theorem auth_error_status_hardcoded:
  "status r = 401 \<or> status r = 403 \<Longrightarrow>
     cls (createErrorFromResponse r) = C_SPAPIAuthError \<and>
     statusCode (createErrorFromResponse r) = Some 401 \<and>
     code (createErrorFromResponse r) = Some ''UNAUTHORIZED''"
  by (auto simp: createErrorFromResponse_def SPAPIAuthError_def SPAPIRequestError_def
      SPAPIError_def Let_def split: prod.splits)

theorem auth_error_status_hardcoded_witness:
  "cls (createErrorFromResponse \<lparr>status = 403, headers = Map.empty, data_errors = None\<rparr>)
     = C_SPAPIAuthError \<and>
   statusCode (createErrorFromResponse \<lparr>status = 403, headers = Map.empty, data_errors = None\<rparr>)
     = Some 401 \<and>
   code (createErrorFromResponse \<lparr>status = 403, headers = Map.empty, data_errors = None\<rparr>)
     = Some ''UNAUTHORIZED''"
  using auth_error_status_hardcoded
    [of "\<lparr>status = 403, headers = Map.empty, data_errors = None\<rparr>"]
  by simp

lemma classification_class:
  assumes "status r \<ge> 400"
  shows "cls (createErrorFromResponse r) =
     (if status r = 429 then C_RateLimitError
      else if status r = 401 \<or> status r = 403 then C_SPAPIAuthError
      else if status r = 400 then C_SPAPIValidationError
      else if status r < 500 then C_SPAPIRequestError
      else C_SPAPIServerError)"
  using assms
  by (auto simp: createErrorFromResponse_def Let_def RateLimitError_def SPAPIAuthError_def
      SPAPIValidationError_def SPAPIRequestError_def SPAPIServerError_def SPAPIError_def
      split: prod.splits)

lemma classification_retryAfter:
  assumes "status r = 429"
  shows "retryAfter (createErrorFromResponse r) =
     (case headers r ''retry-after'' of
        None \<Rightarrow> None
      | Some h \<Rightarrow> if h = [] then None else Some (parseInt10 h))"
  using assms
  by (auto simp: createErrorFromResponse_def Let_def RateLimitError_def SPAPIError_def
      split: prod.splits)

lemma classification_message:
  assumes "status r \<ge> 400"
  shows "message (createErrorFromResponse r) =
     (case data_errors r of
        Some (firstError # rest) \<Rightarrow>
          if err_message firstError = [] \<and> status r \<in> {429, 401, 403, 400}
          then fallbackMessage (status r)
          else err_message firstError
      | _ \<Rightarrow> ''SP-API request failed with status '' @ showNat (status r))"
  using assms
  by (auto simp: createErrorFromResponse_def Let_def RateLimitError_def SPAPIAuthError_def
      SPAPIValidationError_def SPAPIRequestError_def SPAPIServerError_def SPAPIError_def
      strOr_def fallbackMessage_def
      split: prod.splits option.splits list.splits)

lemma classification_details:
  assumes "status r \<ge> 400"
  shows "details (createErrorFromResponse r) =
     (case data_errors r of
        Some (firstError # rest) \<Rightarrow>
          if rest \<noteq> [] then DetailsErrors (firstError # rest)
          else (case err_details firstError of None \<Rightarrow> NoDetails | Some s \<Rightarrow> DetailsString s)
      | _ \<Rightarrow> NoDetails)"
  using assms
  by (auto simp: createErrorFromResponse_def Let_def RateLimitError_def SPAPIAuthError_def
      SPAPIValidationError_def SPAPIRequestError_def SPAPIServerError_def SPAPIError_def
      split: prod.splits option.splits list.splits)


text \<open>
  C2, at the input where it fails: a 429 response whose first error entry has an empty
  message.  The message of the error is the fixed text for the status, not the message of
  the first entry.
\<close>

theorem empty_message_counterexample:
  "data_errors emptyMessage429 =
     Some [\<lparr>err_code = ''QuotaExceeded'', err_message = [], err_details = None\<rparr>] \<and>
   message (createErrorFromResponse emptyMessage429) = ''Rate limit exceeded'' \<and>
   message (createErrorFromResponse emptyMessage429) \<noteq>
     err_message (hd (the (data_errors emptyMessage429)))"
  by (simp add: client_defs)

text \<open>
  C2, amended.  For every response with status at least 400: 429 is classified as
  RateLimited; it carries no number of seconds when the retry-after header is absent or
  empty, and otherwise the result of \<open>parseInt\<close> in base 10 on the header: \<open>NaN\<close> when the
  header does not start with a decimal integer, else that integer as a double (stated for
  results that do not overflow the doubles).  401 and 403 are classified as AuthFailure;
  400 as ValidationFailure; any other status below 500 as ClientRequest; any status from
  500 on as ServerFault.  The message is the message of the first entry of the errors array
  when there is one, except that for 429, 401, 403 and 400 an empty message is replaced by
  a fixed text for the status; without an entry it is the generic message naming the
  status.  The details are the whole array when it has more than one entry, else the first
  entry's own details.
\<close>

theorem error_classification:
  assumes "status r \<ge> 400"
  shows "(status r = 429 \<longrightarrow>
            cls (createErrorFromResponse r) = C_RateLimitError \<and>
            (headers r ''retry-after'' = None \<or> headers r ''retry-after'' = Some [] \<longrightarrow>
               retryAfter (createErrorFromResponse r) = None) \<and>
            (\<forall>h. headers r ''retry-after'' = Some h \<and> h \<noteq> [] \<longrightarrow>
               retryAfter (createErrorFromResponse r) \<noteq> None \<and>
               (parseInt10 h = NaN \<longrightarrow> retryAfter (createErrorFromResponse r) = Some NaN) \<and>
               (\<forall>m. parseInt10 h = Num m \<and> \<bar>m\<bar> < 2 ^ 1024 \<longrightarrow>
                  retryAfter (createErrorFromResponse r) = Some (Num m)))) \<and>
         (status r = 401 \<or> status r = 403 \<longrightarrow>
            cls (createErrorFromResponse r) = C_SPAPIAuthError) \<and>
         (status r = 400 \<longrightarrow> cls (createErrorFromResponse r) = C_SPAPIValidationError) \<and>
         (status r < 500 \<and> status r \<notin> {400, 401, 403, 429} \<longrightarrow>
            cls (createErrorFromResponse r) = C_SPAPIRequestError) \<and>
         (status r \<ge> 500 \<longrightarrow> cls (createErrorFromResponse r) = C_SPAPIServerError) \<and>
         message (createErrorFromResponse r) =
           (case data_errors r of
              Some (firstError # rest) \<Rightarrow>
                if err_message firstError = [] \<and> status r \<in> {429, 401, 403, 400}
                then fallbackMessage (status r)
                else err_message firstError
            | _ \<Rightarrow> ''SP-API request failed with status '' @ showNat (status r)) \<and>
         details (createErrorFromResponse r) =
           (case data_errors r of
              Some (firstError # rest) \<Rightarrow>
                if rest \<noteq> [] then DetailsErrors (firstError # rest)
                else (case err_details firstError of
                        None \<Rightarrow> NoDetails | Some s \<Rightarrow> DetailsString s)
            | _ \<Rightarrow> NoDetails)"
proof -
  have "cls (createErrorFromResponse r) =
     (if status r = 429 then C_RateLimitError
      else if status r = 401 \<or> status r = 403 then C_SPAPIAuthError
      else if status r = 400 then C_SPAPIValidationError
      else if status r < 500 then C_SPAPIRequestError
      else C_SPAPIServerError)"
    by (rule classification_class [OF assms])
  then have c: "(status r = 429 \<longrightarrow> cls (createErrorFromResponse r) = C_RateLimitError) \<and>
         (status r = 401 \<or> status r = 403 \<longrightarrow>
            cls (createErrorFromResponse r) = C_SPAPIAuthError) \<and>
         (status r = 400 \<longrightarrow> cls (createErrorFromResponse r) = C_SPAPIValidationError) \<and>
         (status r < 500 \<and> status r \<notin> {400, 401, 403, 429} \<longrightarrow>
            cls (createErrorFromResponse r) = C_SPAPIRequestError) \<and>
         (status r \<ge> 500 \<longrightarrow> cls (createErrorFromResponse r) = C_SPAPIServerError)"
    by auto
  have ra: "status r = 429 \<longrightarrow>
      (headers r ''retry-after'' = None \<or> headers r ''retry-after'' = Some [] \<longrightarrow>
         retryAfter (createErrorFromResponse r) = None) \<and>
      (\<forall>h. headers r ''retry-after'' = Some h \<and> h \<noteq> [] \<longrightarrow>
         retryAfter (createErrorFromResponse r) \<noteq> None \<and>
         (parseInt10 h = NaN \<longrightarrow> retryAfter (createErrorFromResponse r) = Some NaN) \<and>
         (\<forall>m. parseInt10 h = Num m \<and> \<bar>m\<bar> < 2 ^ 1024 \<longrightarrow>
            retryAfter (createErrorFromResponse r) = Some (Num m)))"
    using classification_retryAfter [of r] by auto
  show ?thesis
    using c ra classification_message [OF assms] classification_details [OF assms]
    by blast
qed

theorem error_classification_witness:
  "status tooManyRequests60 \<ge> 400 \<and>
   cls (createErrorFromResponse tooManyRequests60) = C_RateLimitError \<and>
   headers tooManyRequests60 ''retry-after'' = Some ''60'' \<and>
   parseInt10 ''60'' = Num 60 \<and>
   retryAfter (createErrorFromResponse tooManyRequests60) = Some (Num 60) \<and>
   message (createErrorFromResponse tooManyRequests60) =
     ''SP-API request failed with status 429'' \<and>
   details (createErrorFromResponse tooManyRequests60) = NoDetails"
proof -
  have h: "status tooManyRequests60 \<ge> 400"
    by (simp add: tooManyRequests60_def)
  have hd: "headers tooManyRequests60 ''retry-after'' = Some ''60''"
    by (simp add: tooManyRequests60_def)
  have p: "parseInt10 ''60'' = Num 60"
    by (simp add: parseInt10_def isWhiteSpace_def isDigit_def digitsValue_def toDouble_def)
  have s: "status tooManyRequests60 = 429" and d: "data_errors tooManyRequests60 = None"
    by (simp_all add: tooManyRequests60_def)
  note cl = error_classification [OF h]
  from cl s hd p have "retryAfter (createErrorFromResponse tooManyRequests60) = Some (Num 60)"
    by simp
  moreover from cl s have "cls (createErrorFromResponse tooManyRequests60) = C_RateLimitError"
    by simp
  moreover from cl s d have "message (createErrorFromResponse tooManyRequests60) =
     ''SP-API request failed with status 429'' \<and>
     details (createErrorFromResponse tooManyRequests60) = NoDetails"
    by (simp add: showNat.simps)
  ultimately show ?thesis using h hd p by simp
qed

text \<open>
  The parse at two edges: a no-break space before the digits is skipped, and an integer
  that is not a double is rounded to the nearest one.
\<close>

lemma parseInt10_edges:
  "parseInt10 (CHR 0xA0 # ''60'') = Num 60 \<and>
   parseInt10 ''9007199254740993'' = Num 9007199254740992 \<and>
   parseInt10 ''  -12abc'' = Num (- 12) \<and>
   parseInt10 ''soon'' = NaN"
  by (simp add: parseInt10_def isWhiteSpace_def isDigit_def digitsValue_def toDouble_def
      Let_def bitLength.simps)

section \<open>Properties of the retry loop\<close>

lemma makeRequest_trace:
  "fst (makeRequest e n) = [GetToken] \<or> fst (makeRequest e n) = [GetToken, Send]"
  by (simp add: makeRequest_def split: sum.splits transport.splits)

lemma requestWithRetry_unfold:
  assumes "makeRequest e n = (evs, Inl err)"
  shows "requestWithRetry cfg e n =
     (if n < maxRetries cfg \<and> isRetryableError cfg err
      then (evs @ Sleep (retrySleep cfg n err) # fst (requestWithRetry cfg e (n + 1)),
            snd (requestWithRetry cfg e (n + 1)))
      else (evs, Inl err))"
  using assms by (subst requestWithRetry.simps) (simp split: prod.splits)

lemma requestWithRetry_success:
  assumes "makeRequest e n = (evs, Inr r)"
  shows "requestWithRetry cfg e n = (evs, Inr r)"
  using assms by (subst requestWithRetry.simps) simp

lemma resumesAt_attempt:
  assumes "xs = [GetToken] \<or> xs = [GetToken, Send]"
    and "resumesAt GetToken ys" and "ys \<noteq> []" and "hd ys = GetToken"
  shows "resumesAt GetToken (xs @ Sleep d # ys)"
  using assms by (cases ys) auto

lemma requestWithRetry_shape:
  "filter isAcquireSlot (fst (requestWithRetry cfg e n)) = [] \<and>
   fst (requestWithRetry cfg e n) \<noteq> [] \<and>
   hd (fst (requestWithRetry cfg e n)) = GetToken \<and>
   resumesAt GetToken (fst (requestWithRetry cfg e n))"
proof (induction cfg e n rule: requestWithRetry.induct)
  case (1 cfg e n)
  obtain evs res where mk: "makeRequest e n = (evs, res)"
    by (cases "makeRequest e n")
  have tr: "evs = [GetToken] \<or> evs = [GetToken, Send]"
    using makeRequest_trace [of e n] mk by simp
  show ?case
  proof (cases res)
    case (Inr r)
    with mk tr show ?thesis
      by (auto simp: requestWithRetry_success)
  next
    case (Inl err)
    show ?thesis
    proof (cases "n < maxRetries cfg \<and> isRetryableError cfg err")
      case False
      with mk Inl tr show ?thesis
        by (auto simp: requestWithRetry_unfold)
    next
      case True
      then have ih: "filter isAcquireSlot (fst (requestWithRetry cfg e (n + 1))) = [] \<and>
          fst (requestWithRetry cfg e (n + 1)) \<noteq> [] \<and>
          hd (fst (requestWithRetry cfg e (n + 1))) = GetToken \<and>
          resumesAt GetToken (fst (requestWithRetry cfg e (n + 1)))"
        using "1.IH" [OF mk [symmetric] Inl True] by simp
      have eq: "fst (requestWithRetry cfg e n) =
          evs @ Sleep (retrySleep cfg n err) # fst (requestWithRetry cfg e (n + 1))"
        using mk Inl True by (simp add: requestWithRetry_unfold)
      have "resumesAt GetToken (fst (requestWithRetry cfg e n))"
        unfolding eq using tr ih by (intro resumesAt_attempt) auto
      moreover have "filter isAcquireSlot (fst (requestWithRetry cfg e n)) = []"
        unfolding eq using tr ih by auto
      moreover have "fst (requestWithRetry cfg e n) \<noteq> [] \<and> hd (fst (requestWithRetry cfg e n)) = GetToken"
        unfolding eq using tr by auto
      ultimately show ?thesis by simp
    qed
  qed
qed

text \<open>
  C1, at the input where it fails: the backend answers 503 once, then 200.  The second
  attempt is sent after the sleep without a second acquisition of a slot.
\<close>

theorem retries_skip_acquire_counterexample:
  "fst (request DEFAULT_RETRY_CONFIG flakyEnv ''default'') =
     [AcquireSlot ''default'', GetToken, Send, Sleep 1000, GetToken, Send]"
  by (simp add: client_defs flakyEnv_def)

text \<open>
  C1, amended.  Every call to \<open>request\<close> acquires a rate-limit slot for its bucket key
  exactly once, before the first attempt; an attempt re-sent after a retryable failure
  starts, after the sleep, at the access token, and no slot is acquired again.
\<close>

theorem slot_acquired_once:
  "filter isAcquireSlot (fst (request cfg e k)) = [AcquireSlot k] \<and>
   hd (fst (request cfg e k)) = AcquireSlot k \<and>
   resumesAt GetToken (fst (request cfg e k))"
proof (cases "acquireOutcome e k")
  case (Some err)
  then show ?thesis by (simp add: request_def)
next
  case None
  obtain evs res where rw: "requestWithRetry cfg e 0 = (evs, res)"
    by (cases "requestWithRetry cfg e 0")
  from requestWithRetry_shape [of cfg e 0] rw
  have "filter isAcquireSlot evs = []" "evs \<noteq> []" "resumesAt GetToken evs" by simp_all
  with None rw show ?thesis
    by (cases evs) (simp_all add: request_def)
qed


theorem slot_acquired_once_witness:
  "filter isAcquireSlot (fst (request DEFAULT_RETRY_CONFIG flakyEnv ''default'')) =
     [AcquireSlot ''default''] \<and>
   hd (fst (request DEFAULT_RETRY_CONFIG flakyEnv ''default'')) = AcquireSlot ''default'' \<and>
   resumesAt GetToken (fst (request DEFAULT_RETRY_CONFIG flakyEnv ''default''))"
  by (rule slot_acquired_once)

lemma isRetryableError_iff:
  "isRetryableError cfg err \<longleftrightarrow>
     (\<exists>x sc. err = Typed x \<and> statusCode x = Some sc \<and> sc \<noteq> 0 \<and>
        sc \<in> set (retryableStatusCodes cfg))"
  by (auto simp: isRetryableError_def split: thrown.splits option.splits)

lemma retrySleep_retryAfter:
  assumes "cls x = C_RateLimitError" and "retryAfter x = Some (Num m)" and "m \<noteq> 0"
  shows "retrySleep cfg n (Typed x) = of_int m * 1000"
  using assms by (simp add: retrySleep_def instanceofRateLimitError_def)

lemma retrySleep_backoff:
  assumes "\<not> (\<exists>x m. err = Typed x \<and> cls x = C_RateLimitError \<and> retryAfter x = Some (Num m) \<and> m \<noteq> 0)"
  shows "retrySleep cfg n err = retryDelay cfg * backoffMultiplier cfg ^ n"
proof (cases err)
  case (Plain s)
  then show ?thesis by (simp add: retrySleep_def)
next
  case (Typed x)
  show ?thesis
  proof (cases "instanceofRateLimitError x \<and> truthyNum (retryAfter x)")
    case False
    with Typed show ?thesis by (auto simp: retrySleep_def Let_def)
  next
    case True
    then obtain m where "retryAfter x = Some (Num m)" "m \<noteq> 0"
      by (cases "retryAfter x" rule: truthyNum.cases) auto
    with True Typed assms show ?thesis
      by (simp add: instanceofRateLimitError_def)
  qed
qed

lemma always_503_attempt:
  assumes "tokenOutcome e n = Inr t" and "transportOutcome e n = Resolved r" and "status r = 503"
  shows "makeRequest e n = ([GetToken, Send], Inl (Typed (createErrorFromResponse r)))"
  using assms by (simp add: makeRequest_def)

lemma server_error_503:
  assumes "status r = 503"
  shows "cls (createErrorFromResponse r) = C_SPAPIServerError \<and>
         statusCode (createErrorFromResponse r) = Some 503"
  using assms
  by (auto simp: createErrorFromResponse_def Let_def SPAPIServerError_def SPAPIError_def
      split: prod.splits)

lemma always_503_retries:
  assumes tok: "\<forall>n. \<exists>t. tokenOutcome e n = Inr t"
    and tr: "\<forall>n. \<exists>r. transportOutcome e n = Resolved r \<and> status r = 503"
    and codes: "503 \<in> set (retryableStatusCodes cfg)"
  shows "d = maxRetries cfg - n \<Longrightarrow> n \<le> maxRetries cfg \<Longrightarrow>
     length (filter isSend (fst (requestWithRetry cfg e n))) = d + 1 \<and>
     (\<exists>x. snd (requestWithRetry cfg e n) = Inl (Typed x) \<and>
          cls x = C_SPAPIServerError \<and> statusCode x = Some 503)"
proof (induction d arbitrary: n)
  case 0
  obtain t r where a: "tokenOutcome e n = Inr t" "transportOutcome e n = Resolved r" "status r = 503"
    using tok tr by blast
  have "requestWithRetry cfg e n = ([GetToken, Send], Inl (Typed (createErrorFromResponse r)))"
    using 0 by (simp add: requestWithRetry_unfold [OF always_503_attempt [OF a]])
  then show ?case using server_error_503 [OF a(3)] by simp
next
  case (Suc d)
  obtain t r where a: "tokenOutcome e n = Inr t" "transportOutcome e n = Resolved r" "status r = 503"
    using tok tr by blast
  have retry: "n < maxRetries cfg \<and> isRetryableError cfg (Typed (createErrorFromResponse r))"
    using Suc.prems codes server_error_503 [OF a(3)] by (simp add: isRetryableError_def)
  have ih: "length (filter isSend (fst (requestWithRetry cfg e (n + 1)))) = d + 1 \<and>
     (\<exists>x. snd (requestWithRetry cfg e (n + 1)) = Inl (Typed x) \<and>
          cls x = C_SPAPIServerError \<and> statusCode x = Some 503)"
    using Suc.IH [of "n + 1"] Suc.prems by simp
  show ?case
    using retry ih by (simp add: requestWithRetry_unfold [OF always_503_attempt [OF a]])
qed


lemma requestWithRetry_attempts:
  "length (filter isSend (fst (requestWithRetry cfg e n))) \<le> maxRetries cfg - n + 1"
proof (induction cfg e n rule: requestWithRetry.induct)
  case (1 cfg e n)
  obtain evs res where mk: "makeRequest e n = (evs, res)"
    by (cases "makeRequest e n")
  have tr: "evs = [GetToken] \<or> evs = [GetToken, Send]"
    using makeRequest_trace [of e n] mk by simp
  show ?case
  proof (cases res)
    case (Inr r)
    with mk tr show ?thesis
      by (auto simp: requestWithRetry_success)
  next
    case (Inl err)
    show ?thesis
    proof (cases "n < maxRetries cfg \<and> isRetryableError cfg err")
      case False
      with mk Inl tr show ?thesis
        by (auto simp: requestWithRetry_unfold)
    next
      case True
      then have ih: "length (filter isSend (fst (requestWithRetry cfg e (n + 1)))) \<le>
          maxRetries cfg - (n + 1) + 1"
        using "1.IH" [OF mk [symmetric] Inl True] by simp
      have eq: "fst (requestWithRetry cfg e n) =
          evs @ Sleep (retrySleep cfg n err) # fst (requestWithRetry cfg e (n + 1))"
        using mk Inl True by (simp add: requestWithRetry_unfold)
      show ?thesis
        unfolding eq using tr ih True by auto
    qed
  qed
qed

lemma request_attempts:
  "length (filter isSend (fst (request cfg e k))) \<le> maxRetries cfg + 1"
proof (cases "acquireOutcome e k")
  case (Some err)
  then show ?thesis by (simp add: request_def)
next
  case None
  obtain evs res where rw: "requestWithRetry cfg e 0 = (evs, res)"
    by (cases "requestWithRetry cfg e 0")
  from requestWithRetry_attempts [of cfg e 0] rw None show ?thesis
    by (simp add: request_def)
qed

text \<open>
  C3, at the input where it fails: a 429 response with retry-after 0.  The error carries
  the value 0, and the retry sleeps the computed 1000 ms, not 0 s.
\<close>

theorem retry_after_zero_counterexample:
  "retryAfter (createErrorFromResponse tooManyRequests0) = Some (Num 0) \<and>
   fst (request DEFAULT_RETRY_CONFIG retryAfterZeroEnv ''default'') =
     [AcquireSlot ''default'', GetToken, Send, Sleep 1000, GetToken, Send]"
  by (simp add: client_defs retryAfterZeroEnv_def)

text \<open>
  C3, amended.  A failed attempt is retried if and only if the error is a typed error with
  a non-zero status code that is among the retryable status codes (429, 500, 502, 503, 504
  by default) and the attempt number is below the maximal number of retries (3 by default).
  The delay before the retry is the base delay times the multiplier to the power of the
  attempt number (1000 ms and 2 by default), except for a RateLimited error carrying a
  non-zero number of seconds, which is slept instead.  A call never makes more transport
  attempts than the maximal number of retries plus one.  Against a backend that always
  answers 503, a request with at most 3 retries makes exactly 4 transport attempts and
  fails with a ServerFault error.
\<close>

theorem retry_policy:
  "(makeRequest e n = (evs, Inl err) \<longrightarrow>
      (if n < maxRetries cfg \<and>
          (\<exists>x sc. err = Typed x \<and> statusCode x = Some sc \<and> sc \<noteq> 0 \<and>
             sc \<in> set (retryableStatusCodes cfg))
       then \<exists>d. requestWithRetry cfg e n =
                 (evs @ Sleep d # fst (requestWithRetry cfg e (n + 1)),
                  snd (requestWithRetry cfg e (n + 1))) \<and>
               (\<forall>x m. err = Typed x \<and> cls x = C_RateLimitError \<and>
                  retryAfter x = Some (Num m) \<and> m \<noteq> 0 \<longrightarrow> d = of_int m * 1000) \<and>
               ((\<nexists>x m. err = Typed x \<and> cls x = C_RateLimitError \<and>
                  retryAfter x = Some (Num m) \<and> m \<noteq> 0) \<longrightarrow>
                  d = retryDelay cfg * backoffMultiplier cfg ^ n)
       else requestWithRetry cfg e n = (evs, Inl err))) \<and>
   maxRetries DEFAULT_RETRY_CONFIG = 3 \<and>
   retryableStatusCodes DEFAULT_RETRY_CONFIG = [429, 500, 502, 503, 504] \<and>
   retryDelay DEFAULT_RETRY_CONFIG = 1000 \<and>
   backoffMultiplier DEFAULT_RETRY_CONFIG = 2 \<and>
   length (filter isSend (fst (request cfg e k))) \<le> maxRetries cfg + 1 \<and>
   ((\<forall>i. \<exists>t. tokenOutcome e i = Inr t) \<and>
    (\<forall>i. \<exists>r. transportOutcome e i = Resolved r \<and> status r = 503) \<and>
    acquireOutcome e k = None \<and> maxRetries cfg = 3 \<and>
    503 \<in> set (retryableStatusCodes cfg) \<longrightarrow>
      length (filter isSend (fst (request cfg e k))) = 4 \<and>
      (\<exists>x. snd (request cfg e k) = Inl (Typed x) \<and>
           cls x = C_SPAPIServerError \<and> statusCode x = Some 503))"
proof (intro conjI impI)
  assume mk: "makeRequest e n = (evs, Inl err)"
  let ?retry = "n < maxRetries cfg \<and>
          (\<exists>x sc. err = Typed x \<and> statusCode x = Some sc \<and> sc \<noteq> 0 \<and>
             sc \<in> set (retryableStatusCodes cfg))"
  have iff: "?retry \<longleftrightarrow> n < maxRetries cfg \<and> isRetryableError cfg err"
    by (simp add: isRetryableError_iff)
  show "if ?retry
       then \<exists>d. requestWithRetry cfg e n =
                 (evs @ Sleep d # fst (requestWithRetry cfg e (n + 1)),
                  snd (requestWithRetry cfg e (n + 1))) \<and>
               (\<forall>x m. err = Typed x \<and> cls x = C_RateLimitError \<and>
                  retryAfter x = Some (Num m) \<and> m \<noteq> 0 \<longrightarrow> d = of_int m * 1000) \<and>
               ((\<nexists>x m. err = Typed x \<and> cls x = C_RateLimitError \<and>
                  retryAfter x = Some (Num m) \<and> m \<noteq> 0) \<longrightarrow>
                  d = retryDelay cfg * backoffMultiplier cfg ^ n)
       else requestWithRetry cfg e n = (evs, Inl err)"
  proof (cases ?retry)
    case False
    then have "\<not> (n < maxRetries cfg \<and> isRetryableError cfg err)"
      using iff by blast
    then have "requestWithRetry cfg e n = (evs, Inl err)"
      using requestWithRetry_unfold [OF mk, of cfg] by simp
    with False show ?thesis by simp
  next
    case True
    then have r: "n < maxRetries cfg \<and> isRetryableError cfg err"
      using iff by blast
    have eq: "requestWithRetry cfg e n =
        (evs @ Sleep (retrySleep cfg n err) # fst (requestWithRetry cfg e (n + 1)),
         snd (requestWithRetry cfg e (n + 1)))"
      using requestWithRetry_unfold [OF mk, of cfg] r by simp
    have a: "\<forall>x m. err = Typed x \<and> cls x = C_RateLimitError \<and>
        retryAfter x = Some (Num m) \<and> m \<noteq> 0 \<longrightarrow> retrySleep cfg n err = of_int m * 1000"
      using retrySleep_retryAfter by blast
    have b: "(\<nexists>x m. err = Typed x \<and> cls x = C_RateLimitError \<and>
        retryAfter x = Some (Num m) \<and> m \<noteq> 0) \<longrightarrow>
        retrySleep cfg n err = retryDelay cfg * backoffMultiplier cfg ^ n"
      using retrySleep_backoff by blast
    from eq a b have "\<exists>d. requestWithRetry cfg e n =
                 (evs @ Sleep d # fst (requestWithRetry cfg e (n + 1)),
                  snd (requestWithRetry cfg e (n + 1))) \<and>
               (\<forall>x m. err = Typed x \<and> cls x = C_RateLimitError \<and>
                  retryAfter x = Some (Num m) \<and> m \<noteq> 0 \<longrightarrow> d = of_int m * 1000) \<and>
               ((\<nexists>x m. err = Typed x \<and> cls x = C_RateLimitError \<and>
                  retryAfter x = Some (Num m) \<and> m \<noteq> 0) \<longrightarrow>
                  d = retryDelay cfg * backoffMultiplier cfg ^ n)"
      by blast
    with True show ?thesis by simp
  qed
next
  show "maxRetries DEFAULT_RETRY_CONFIG = 3" by (simp add: DEFAULT_RETRY_CONFIG_def)
  show "retryableStatusCodes DEFAULT_RETRY_CONFIG = [429, 500, 502, 503, 504]"
    by (simp add: DEFAULT_RETRY_CONFIG_def)
  show "retryDelay DEFAULT_RETRY_CONFIG = 1000" by (simp add: DEFAULT_RETRY_CONFIG_def)
  show "backoffMultiplier DEFAULT_RETRY_CONFIG = 2" by (simp add: DEFAULT_RETRY_CONFIG_def)
  show "length (filter isSend (fst (request cfg e k))) \<le> maxRetries cfg + 1"
    by (rule request_attempts)
next
  assume h: "(\<forall>i. \<exists>t. tokenOutcome e i = Inr t) \<and>
    (\<forall>i. \<exists>r. transportOutcome e i = Resolved r \<and> status r = 503) \<and>
    acquireOutcome e k = None \<and> maxRetries cfg = 3 \<and>
    503 \<in> set (retryableStatusCodes cfg)"
  then have run: "length (filter isSend (fst (requestWithRetry cfg e 0))) = 3 + 1 \<and>
     (\<exists>x. snd (requestWithRetry cfg e 0) = Inl (Typed x) \<and>
          cls x = C_SPAPIServerError \<and> statusCode x = Some 503)"
    by (intro always_503_retries) simp_all
  obtain evs' res where rw: "requestWithRetry cfg e 0 = (evs', res)"
    by (cases "requestWithRetry cfg e 0")
  from h rw have req: "request cfg e k = (AcquireSlot k # evs', res)"
    by (simp add: request_def)
  from run rw req show "length (filter isSend (fst (request cfg e k))) = 4" by simp
  from run rw req show "\<exists>x. snd (request cfg e k) = Inl (Typed x) \<and>
           cls x = C_SPAPIServerError \<and> statusCode x = Some 503" by simp
qed

theorem retry_policy_witness:
  "makeRequest always503Env 0 =
     ([GetToken, Send], Inl (Typed (createErrorFromResponse unavailable))) \<and>
   (\<exists>d. requestWithRetry DEFAULT_RETRY_CONFIG always503Env 0 =
          ([GetToken, Send] @ Sleep d # fst (requestWithRetry DEFAULT_RETRY_CONFIG always503Env 1),
           snd (requestWithRetry DEFAULT_RETRY_CONFIG always503Env 1)) \<and> d = 1000) \<and>
   length (filter isSend (fst (request DEFAULT_RETRY_CONFIG always503Env ''default''))) = 4 \<and>
   (\<exists>x. snd (request DEFAULT_RETRY_CONFIG always503Env ''default'') = Inl (Typed x) \<and>
        cls x = C_SPAPIServerError \<and> statusCode x = Some 503)"
proof -
  note pol = retry_policy [of always503Env 0 "[GetToken, Send]"
      "Typed (createErrorFromResponse unavailable)" DEFAULT_RETRY_CONFIG "''default''"]
  have mk: "makeRequest always503Env 0 =
     ([GetToken, Send], Inl (Typed (createErrorFromResponse unavailable)))"
    by (simp add: makeRequest_def always503Env_def unavailable_def)
  have st: "statusCode (createErrorFromResponse unavailable) = Some 503 \<and>
      cls (createErrorFromResponse unavailable) = C_SPAPIServerError"
    by (simp add: createErrorFromResponse_def unavailable_def SPAPIServerError_def SPAPIError_def)
  have env: "(\<forall>i. \<exists>t. tokenOutcome always503Env i = Inr t) \<and>
    (\<forall>i. \<exists>r. transportOutcome always503Env i = Resolved r \<and> status r = 503) \<and>
    acquireOutcome always503Env ''default'' = None \<and> maxRetries DEFAULT_RETRY_CONFIG = 3 \<and>
    503 \<in> set (retryableStatusCodes DEFAULT_RETRY_CONFIG)"
    by (simp add: always503Env_def unavailable_def DEFAULT_RETRY_CONFIG_def)
  from pol mk st have "\<exists>d. requestWithRetry DEFAULT_RETRY_CONFIG always503Env 0 =
          ([GetToken, Send] @ Sleep d # fst (requestWithRetry DEFAULT_RETRY_CONFIG always503Env 1),
           snd (requestWithRetry DEFAULT_RETRY_CONFIG always503Env 1)) \<and> d = 1000"
    by (simp add: DEFAULT_RETRY_CONFIG_def)
  moreover from pol env have
    "length (filter isSend (fst (request DEFAULT_RETRY_CONFIG always503Env ''default''))) = 4 \<and>
     (\<exists>x. snd (request DEFAULT_RETRY_CONFIG always503Env ''default'') = Inl (Typed x) \<and>
        cls x = C_SPAPIServerError \<and> statusCode x = Some 503)"
    by blast
  ultimately show ?thesis using mk by blast
qed


section \<open>Properties of the access-token cache\<close>

lemma refreshAccessToken_posts:
  "posts (snd (refreshAccessToken post now tm)) = posts tm + 1"
  by (simp add: refreshAccessToken_def Let_def split: post_outcome.splits)

text \<open>
  C7. A cached token whose expiry lies more than five minutes after the clock reading is
  returned as it is, with no call to the authorization endpoint and no change of state;
  when no token is cached, or the cached one expires within five minutes, one invocation
  issues exactly one call.
\<close>

theorem token_cache_reuse:
  "(\<forall>token. cachedToken tm = Some token \<and> expiresAt token > nowCheck + 5 * 60 * 1000 \<longrightarrow>
      getAccessToken post nowCheck nowStore tm = (Inr (accessToken token), tm)) \<and>
   (cachedToken tm = None \<or>
    (\<exists>token. cachedToken tm = Some token \<and> expiresAt token \<le> nowCheck + 5 * 60 * 1000) \<longrightarrow>
      posts (snd (getAccessToken post nowCheck nowStore tm)) = posts tm + 1)"
  by (auto simp: getAccessToken_def isTokenValid_def refreshAccessToken_posts)

theorem token_cache_reuse_witness:
  "getAccessToken invalidGrant 0 0 freshManager = (Inr ''Atza|cached'', freshManager) \<and>
   posts (snd (getAccessToken grantsToken 0 0 staleManager)) = 2 \<and>
   posts (snd (getAccessToken grantsToken 0 0 (clearCache freshManager))) = 2"
proof -
  have a: "getAccessToken invalidGrant 0 0 freshManager = (Inr ''Atza|cached'', freshManager)"
    using token_cache_reuse [of freshManager 0 invalidGrant 0]
    by (simp add: freshManager_def)
  have b: "posts (snd (getAccessToken grantsToken 0 0 staleManager)) = 2"
    using token_cache_reuse [of staleManager 0 grantsToken 0]
    by (simp add: staleManager_def)
  have c: "posts (snd (getAccessToken grantsToken 0 0 (clearCache freshManager))) = 2"
    using token_cache_reuse [of "clearCache freshManager" 0 grantsToken 0]
    by (simp add: freshManager_def clearCache_def)
  from a b c show ?thesis by simp
qed

text \<open>
  C8. When a refresh is due and the call to the authorization endpoint fails, the
  invocation fails: for an Axios error (a network failure or a response outside 2xx) with
  the message "Failed to refresh LWA access token: " followed by the upstream error
  description when the response carries a non-empty one, and by the error's own message
  otherwise; any other exception is passed on.  The cached token is left as it was: it is
  written only when the call succeeds.
\<close>

theorem refresh_failure_keeps_cache:
  assumes "cachedToken tm = None \<or>
    (\<exists>token. cachedToken tm = Some token \<and> expiresAt token \<le> nowCheck + 5 * 60 * 1000)"
  shows "(post (posts tm) = PostAxiosError description msg \<longrightarrow>
           (\<exists>m. fst (getAccessToken post nowCheck nowStore tm) =
                  Inl (''Failed to refresh LWA access token: '' @ m) \<and>
                (\<forall>d. description = Some d \<and> d \<noteq> [] \<longrightarrow> m = d) \<and>
                (description = None \<or> description = Some [] \<longrightarrow> m = msg))) \<and>
         (post (posts tm) = PostOtherError msg \<longrightarrow>
            fst (getAccessToken post nowCheck nowStore tm) = Inl msg) \<and>
         ((\<nexists>a x. post (posts tm) = PostOk a x) \<longrightarrow>
            cachedToken (snd (getAccessToken post nowCheck nowStore tm)) = cachedToken tm)"
proof -
  have refresh: "getAccessToken post nowCheck nowStore tm = refreshAccessToken post nowStore tm"
    using assms by (auto simp: getAccessToken_def isTokenValid_def)
  show ?thesis
    unfolding refresh
    by (cases "post (posts tm)")
       (auto simp: refreshAccessToken_def Let_def strOr_def split: option.splits)
qed

theorem refresh_failure_keeps_cache_witness:
  "fst (getAccessToken invalidGrant 0 0 staleManager) =
     Inl ''Failed to refresh LWA access token: The provided refresh token is invalid'' \<and>
   cachedToken (snd (getAccessToken invalidGrant 0 0 staleManager)) = cachedToken staleManager"
proof -
  have h: "cachedToken staleManager = None \<or>
    (\<exists>token. cachedToken staleManager = Some token \<and> expiresAt token \<le> 0 + 5 * 60 * 1000)"
    by (simp add: staleManager_def)
  show ?thesis
    using refresh_failure_keeps_cache [OF h, of invalidGrant
        "Some ''The provided refresh token is invalid''" "''Request failed with status code 400''" 0]
    by (auto simp: staleManager_def)
qed


section \<open>Properties of the rate limiter: token counts\<close>

lemma bucketsOk_mono:
  assumes "bucketsOk configs t rl" and "t \<le> t'"
  shows "bucketsOk configs t' rl"
  using assms unfolding bucketsOk_def goodBucket_def by fastforce

lemma goodBucket_mono:
  assumes "goodBucket config t bucket" and "t \<le> t'"
  shows "goodBucket config t' bucket"
  using assms unfolding goodBucket_def by simp

lemma bucketsOk_store:
  assumes "bucketsOk configs t rl" and "configs k = Some config"
    and "goodBucket config t bucket" and "buckets rl' = (buckets rl)(k \<mapsto> bucket)"
  shows "bucketsOk configs t rl'"
  using assms unfolding bucketsOk_def by auto

lemma bucketsOk_same:
  assumes "bucketsOk configs t rl" and "buckets rl' = buckets rl"
  shows "bucketsOk configs t rl'"
  using assms unfolding bucketsOk_def by simp

lemma refillBucket_capped:
  "tokens (refillBucket bucket config now) \<le> maxRequests config"
  by (simp add: refillBucket_def Let_def)

lemma refillBucket_good:
  assumes "goodBucket config t bucket" and "t \<le> now"
    and "0 \<le> maxRequests config" and "0 < windowMs config"
  shows "goodBucket config now (refillBucket bucket config now)"
proof -
  have "0 \<le> (now - lastRefill bucket) / windowMs config * maxRequests config"
    using assms unfolding goodBucket_def by simp
  then show ?thesis
    using assms unfolding goodBucket_def refillBucket_def Let_def by simp
qed

lemma consume_good:
  assumes "goodBucket config t bucket" and "1 \<le> tokens bucket"
  shows "goodBucket config t (bucket\<lparr>tokens := tokens bucket - 1\<rparr>)"
  using assms unfolding goodBucket_def by simp

lemma getOrCreateBucket_good:
  assumes "bucketsOk configs t rl" and "configs k = Some config" and "0 \<le> maxRequests config"
    and "t \<le> tCreate" and "getOrCreateBucket k config tCreate rl = (bucket, rl1)"
  shows "goodBucket config tCreate bucket \<and> bucketsOk configs tCreate rl1 \<and>
         queue rl1 = queue rl \<and> resolved rl1 = resolved rl \<and> callers rl1 = callers rl"
proof (cases "buckets rl k")
  case None
  with assms(5) have b: "bucket = \<lparr>tokens = maxRequests config, lastRefill = tCreate\<rparr>"
    and r: "rl1 = rl\<lparr>buckets := (buckets rl)(k \<mapsto> bucket)\<rparr>"
    by (auto simp: getOrCreateBucket_def Let_def)
  have g: "goodBucket config tCreate bucket"
    using assms(3) b by (simp add: goodBucket_def)
  have "bucketsOk configs tCreate rl1"
    by (rule bucketsOk_store [OF bucketsOk_mono [OF assms(1) assms(4)] assms(2) g]) (simp add: r)
  with g r show ?thesis by simp
next
  case (Some b0)
  with assms(5) have e: "bucket = b0" "rl1 = rl"
    by (auto simp: getOrCreateBucket_def)
  from assms(1,2) Some have "goodBucket config t b0"
    unfolding bucketsOk_def by fastforce
  with e assms(1,4) show ?thesis
    by (simp add: goodBucket_mono [of config t] bucketsOk_mono [of configs t])
qed


lemma refill_then_store:
  assumes ok: "bucketsOk configs t rl" and cfg: "configs k = Some config"
    and wf: "0 \<le> maxRequests config" "0 < windowMs config"
    and times: "t \<le> tCreate" "tCreate \<le> tRefill"
    and get: "getOrCreateBucket k config tCreate rl = (bucket0, rl1)"
    and b: "bucket = refillBucket bucket0 config tRefill"
    and store: "buckets rl' = (buckets rl1)(k \<mapsto> bucket) \<or>
      (1 \<le> tokens bucket \<and> buckets rl' = (buckets rl1)(k \<mapsto> bucket\<lparr>tokens := tokens bucket - 1\<rparr>))"
  shows "bucketsOk configs tRefill rl'"
proof -
  from getOrCreateBucket_good [OF ok cfg wf(1) times(1) get]
  have g0: "goodBucket config tCreate bucket0" and ok1: "bucketsOk configs tCreate rl1"
    by simp_all
  have g: "goodBucket config tRefill bucket"
    unfolding b by (rule refillBucket_good [OF g0 times(2) wf])
  have ok1': "bucketsOk configs tRefill rl1"
    by (rule bucketsOk_mono [OF ok1 times(2)])
  from store show ?thesis
  proof
    assume "buckets rl' = (buckets rl1)(k \<mapsto> bucket)"
    then show ?thesis by (rule bucketsOk_store [OF ok1' cfg g])
  next
    assume c: "1 \<le> tokens bucket \<and>
      buckets rl' = (buckets rl1)(k \<mapsto> bucket\<lparr>tokens := tokens bucket - 1\<rparr>)"
    then have "goodBucket config tRefill (bucket\<lparr>tokens := tokens bucket - 1\<rparr>)"
      using consume_good [OF g] by simp
    with c show ?thesis using bucketsOk_store [OF ok1' cfg] by blast
  qed
qed

lemma acquire_bucketsOk:
  assumes wf: "wellFormed configs" and ok: "bucketsOk configs t rl"
    and times: "t \<le> tCreate" "tCreate \<le> tRefill"
  shows "bucketsOk configs tRefill (snd (acquire configs k tCreate tRefill tEnqueue rl))"
proof (cases "configs k")
  case None
  then show ?thesis
    using bucketsOk_mono [OF ok] times by (simp add: acquire_def)
next
  case (Some config)
  obtain bucket0 rl1 where get: "getOrCreateBucket k config tCreate rl = (bucket0, rl1)"
    by (cases "getOrCreateBucket k config tCreate rl")
  from wf Some have wfc: "0 \<le> maxRequests config" "0 < windowMs config"
    unfolding wellFormed_def by auto
  show ?thesis
    by (rule refill_then_store [OF ok Some wfc times get refl])
       (auto simp: acquire_def Some get Let_def processQueue_def)
qed

lemma iteration_bucketsOk:
  assumes wf: "wellFormed configs" and ok: "bucketsOk configs t rl"
    and times: "t \<le> tCreate" "tCreate \<le> tRefill"
  shows "bucketsOk configs tRefill (snd (processQueueIteration configs tCreate tRefill rl))"
proof (cases "queue rl")
  case Nil
  then show ?thesis
    using bucketsOk_same [OF bucketsOk_mono [OF ok], of tRefill] times
    by (simp add: processQueueIteration_def)
next
  case (Cons entry rest)
  show ?thesis
  proof (cases "configs (key entry)")
    case None
    then show ?thesis
      using bucketsOk_same [OF bucketsOk_mono [OF ok], of tRefill] times Cons
      by (simp add: processQueueIteration_def)
  next
    case (Some config)
    obtain bucket0 rl1 where get: "getOrCreateBucket (key entry) config tCreate rl = (bucket0, rl1)"
      by (cases "getOrCreateBucket (key entry) config tCreate rl")
    from wf Some have wfc: "0 \<le> maxRequests config" "0 < windowMs config"
      unfolding wellFormed_def by auto
    show ?thesis
      by (rule refill_then_store [OF ok Some wfc times get refl])
         (auto simp: processQueueIteration_def Cons Some get Let_def)
  qed
qed

lemma available_bucketsOk:
  assumes wf: "wellFormed configs" and ok: "bucketsOk configs t rl" and times: "t \<le> now"
  shows "bucketsOk configs now (snd (getAvailableTokens configs k now rl))"
proof (cases "configs k")
  case None
  then show ?thesis
    using bucketsOk_mono [OF ok times] by (simp add: getAvailableTokens_def)
next
  case (Some config)
  show ?thesis
  proof (cases "buckets rl k")
    case None
    with Some show ?thesis
      using bucketsOk_mono [OF ok times] by (simp add: getAvailableTokens_def)
  next
    case (Some bucket0)
    from wf \<open>configs k = Some config\<close> have wfc: "0 \<le> maxRequests config" "0 < windowMs config"
      unfolding wellFormed_def by auto
    have "goodBucket config t bucket0"
      using ok Some \<open>configs k = Some config\<close> unfolding bucketsOk_def by fastforce
    then have g: "goodBucket config now (refillBucket bucket0 config now)"
      by (rule refillBucket_good [OF _ times wfc])
    show ?thesis
      by (rule bucketsOk_store [OF bucketsOk_mono [OF ok times] \<open>configs k = Some config\<close> g])
         (simp add: getAvailableTokens_def Some \<open>configs k = Some config\<close> Let_def)
  qed
qed

lemma step_bucketsOk:
  assumes wf: "wellFormed configs" and ok: "bucketsOk configs t rl"
    and times: "sorted (t # readings c)"
  shows "bucketsOk configs (last (t # readings c)) (step configs c rl)"
proof (cases c)
  case (Acquire k tCreate tRefill tEnqueue)
  with times have "t \<le> tCreate" "tCreate \<le> tRefill" "tRefill \<le> tEnqueue" by simp_all
  then show ?thesis
    using bucketsOk_mono [OF acquire_bucketsOk [OF wf ok]] Acquire by simp
next
  case (Iterate tCreate tRefill)
  with times have "t \<le> tCreate" "tCreate \<le> tRefill" by simp_all
  then show ?thesis
    using iteration_bucketsOk [OF wf ok] Iterate by simp
next
  case (Available k now)
  with times have "t \<le> now" by simp
  then show ?thesis
    using available_bucketsOk [OF wf ok] Available by simp
next
  case Reset
  then show ?thesis by (simp add: reset_def bucketsOk_def)
qed

lemma run_bucketsOk:
  assumes wf: "wellFormed configs"
  shows "bucketsOk configs t rl \<Longrightarrow> sorted (t # concat (map readings cs)) \<Longrightarrow>
     bucketsOk configs (last (t # concat (map readings cs))) (run configs cs rl)"
proof (induction cs arbitrary: t rl)
  case Nil
  then show ?case by simp
next
  case (Cons c cs)
  let ?t' = "last (t # readings c)"
  from Cons.prems(2) have s1: "sorted (t # readings c)"
    by (simp add: sorted_append)
  from Cons.prems(2) have s2: "sorted (?t' # concat (map readings cs))"
    by (cases "readings c" rule: rev_cases) (auto simp: sorted_append)
  have ok': "bucketsOk configs ?t' (step configs c rl)"
    by (rule step_bucketsOk [OF wf Cons.prems(1) s1])
  have "last (t # concat (map readings (c # cs))) = last (?t' # concat (map readings cs))"
    by (cases "concat (map readings cs) = []") auto
  with Cons.IH [OF ok' s2] show ?case by simp
qed


lemma wellFormed_oneSlot: "wellFormed oneSlot"
  by (simp add: wellFormed_def oneSlot_def)

text \<open>
  C6. Starting from a new limiter with a well-formed configuration, after any sequence of
  acquisitions, drain iterations, availability queries and resets whose clock readings
  never go back, every bucket belongs to a configured key and its token count lies between
  zero and the capacity.  The refill caps the count (\<open>refillBucket_capped\<close>) and a token is
  taken only from a count of at least one (\<open>consume_good\<close>).
\<close>

theorem tokens_within_capacity:
  assumes "wellFormed configs" and "sorted (concat (map readings cs))"
    and "buckets (run configs cs newRateLimiter) k = Some bucket"
  shows "\<exists>config. configs k = Some config \<and> 0 \<le> tokens bucket \<and>
           tokens bucket \<le> maxRequests config"
proof -
  define t where "t = (case concat (map readings cs) of [] \<Rightarrow> 0 | x # xs \<Rightarrow> x)"
  have s: "sorted (t # concat (map readings cs))"
  proof (cases "concat (map readings cs)")
    case Nil
    show ?thesis unfolding Nil by simp
  next
    case (Cons x xs)
    show ?thesis using assms(2) unfolding t_def Cons by simp
  qed
  have "bucketsOk configs t newRateLimiter"
    by (simp add: bucketsOk_def newRateLimiter_def)
  from run_bucketsOk [OF assms(1) this s] assms(3) show ?thesis
    unfolding bucketsOk_def goodBucket_def by fastforce
qed

theorem tokens_within_capacity_witness:
  "wellFormed oneSlot \<and> sorted (concat (map readings busy)) \<and>
   buckets (run oneSlot busy newRateLimiter) ''k'' = Some \<lparr>tokens = 1 / 2, lastRefill = 500\<rparr> \<and>
   (\<exists>config. oneSlot ''k'' = Some config \<and> 0 \<le> tokens \<lparr>tokens = 1 / 2, lastRefill = 500\<rparr> \<and>
      tokens \<lparr>tokens = 1 / 2, lastRefill = 500\<rparr> \<le> maxRequests config)"
proof -
  have s: "sorted (concat (map readings busy))"
    by (simp add: busy_def)
  have b: "buckets (run oneSlot busy newRateLimiter) ''k'' = Some \<lparr>tokens = 1 / 2, lastRefill = 500\<rparr>"
    by (simp add: busy_def oneSlot_def limiter_defs)
  from tokens_within_capacity [OF wellFormed_oneSlot s b] wellFormed_oneSlot s b
  show ?thesis by blast
qed


section \<open>Properties of the rate limiter: availability\<close>

lemma getOrCreateBucket_other:
  "k' \<noteq> k \<Longrightarrow> buckets (snd (getOrCreateBucket k' config now rl)) k = buckets rl k"
  by (simp add: getOrCreateBucket_def Let_def split: option.splits)

lemma acquire_other:
  assumes "k' \<noteq> k"
  shows "buckets (snd (acquire configs k' tCreate tRefill tEnqueue rl)) k = buckets rl k"
proof (cases "configs k'")
  case None
  then show ?thesis by (simp add: acquire_def)
next
  case (Some config)
  obtain bucket0 rl1 where get: "getOrCreateBucket k' config tCreate rl = (bucket0, rl1)"
    by (cases "getOrCreateBucket k' config tCreate rl")
  from getOrCreateBucket_other [OF assms, of config tCreate rl] get
  have "buckets rl1 k = buckets rl k" by simp
  with assms show ?thesis
    by (simp add: acquire_def Some get Let_def processQueue_def)
qed

lemma iteration_other:
  assumes "case queue rl of [] \<Rightarrow> True | entry # rest \<Rightarrow> key entry \<noteq> k"
  shows "buckets (snd (processQueueIteration configs tCreate tRefill rl)) k = buckets rl k"
proof (cases "queue rl")
  case Nil
  then show ?thesis by (simp add: processQueueIteration_def)
next
  case (Cons entry rest)
  with assms have ne: "key entry \<noteq> k" by simp
  show ?thesis
  proof (cases "configs (key entry)")
    case None
    with Cons show ?thesis by (simp add: processQueueIteration_def)
  next
    case (Some config)
    obtain bucket0 rl1 where get: "getOrCreateBucket (key entry) config tCreate rl = (bucket0, rl1)"
      by (cases "getOrCreateBucket (key entry) config tCreate rl")
    from getOrCreateBucket_other [OF ne, of config tCreate rl] get
    have "buckets rl1 k = buckets rl k" by simp
    with ne show ?thesis
      by (simp add: processQueueIteration_def Cons Some get Let_def)
  qed
qed

lemma refillBucket_raises:
  assumes "tokens bucket \<le> maxRequests config" and "lastRefill bucket \<le> now"
    and "0 \<le> maxRequests config" and "0 < windowMs config"
  shows "tokens bucket \<le> tokens (refillBucket bucket config now)"
proof -
  have "0 \<le> (now - lastRefill bucket) / windowMs config * maxRequests config"
    using assms by simp
  then show ?thesis
    using assms(1) unfolding refillBucket_def Let_def by simp
qed

lemma available_other:
  "k' \<noteq> k \<Longrightarrow> buckets (snd (getAvailableTokens configs k' now rl)) k = buckets rl k"
  by (simp add: getAvailableTokens_def Let_def split: option.splits)

lemma available_same:
  assumes "configs k = Some config"
  shows "buckets (snd (getAvailableTokens configs k now rl)) k =
     map_option (\<lambda>bucket. refillBucket bucket config now) (buckets rl k)"
  using assms by (simp add: getAvailableTokens_def Let_def split: option.splits)

lemma keepsLevel_later:
  "keepsLevel config level t b \<Longrightarrow> t \<le> t' \<Longrightarrow> keepsLevel config level t' b"
  by (auto simp: keepsLevel_def split: option.splits)

lemma quiet_step_keepsLevel:
  assumes wf: "0 \<le> maxRequests config" "0 < windowMs config" and cfg: "configs k = Some config"
    and keep: "keepsLevel config level t (buckets rl k)"
    and quiet: "quietFor k c rl" and times: "sorted (t # readings c)"
  shows "keepsLevel config level (last (t # readings c)) (buckets (step configs c rl) k)"
proof (cases c)
  case (Acquire k' tCreate tRefill tEnqueue)
  with quiet have "k' \<noteq> k" by simp
  from acquire_other [OF this] Acquire times keep show ?thesis
    by (simp add: keepsLevel_later [of config level t])
next
  case (Iterate tCreate tRefill)
  with quiet have "case queue rl of [] \<Rightarrow> True | entry # rest \<Rightarrow> key entry \<noteq> k" by simp
  from iteration_other [OF this] Iterate times keep show ?thesis
    by (simp add: keepsLevel_later [of config level t])
next
  case (Available k' now)
  with times have le: "t \<le> now" by simp
  show ?thesis
  proof (cases "k' = k")
    case False
    from available_other [OF this] Available le keep show ?thesis
      by (simp add: keepsLevel_later [of config level t])
  next
    case True
    show ?thesis
    proof (cases "buckets rl k")
      case None
      with True Available available_same [of configs k config now rl] cfg show ?thesis
        by (simp add: keepsLevel_def)
    next
      case (Some bucket)
      with keep have b: "level \<le> tokens bucket" "tokens bucket \<le> maxRequests config"
        "lastRefill bucket \<le> t"
        by (simp_all add: keepsLevel_def)
      have "tokens bucket \<le> tokens (refillBucket bucket config now)"
        using b le wf by (intro refillBucket_raises) simp_all
      with b have "level \<le> tokens (refillBucket bucket config now)" by simp
      moreover have "tokens (refillBucket bucket config now) \<le> maxRequests config"
        by (rule refillBucket_capped)
      moreover have "lastRefill (refillBucket bucket config now) = now"
        by (simp add: refillBucket_def Let_def)
      ultimately show ?thesis
        using True Available Some available_same [of configs k config now rl] cfg
        by (simp add: keepsLevel_def)
    qed
  qed
next
  case Reset
  then show ?thesis by (simp add: reset_def keepsLevel_def)
qed

lemma quiet_run_keepsLevel:
  assumes wf: "0 \<le> maxRequests config" "0 < windowMs config" and cfg: "configs k = Some config"
  shows "keepsLevel config level t (buckets rl k) \<Longrightarrow> quietRun configs k cs rl \<Longrightarrow>
     sorted (t # concat (map readings cs)) \<Longrightarrow>
     keepsLevel config level (last (t # concat (map readings cs)))
       (buckets (run configs cs rl) k)"
proof (induction cs arbitrary: t rl)
  case Nil
  then show ?case by simp
next
  case (Cons c cs)
  let ?t' = "last (t # readings c)"
  from Cons.prems(3) have s1: "sorted (t # readings c)"
    by (simp add: sorted_append)
  from Cons.prems(3) have s2: "sorted (?t' # concat (map readings cs))"
    by (cases "readings c" rule: rev_cases) (auto simp: sorted_append)
  from Cons.prems(2) have q1: "quietFor k c rl"
    and q2: "quietRun configs k cs (step configs c rl)" by simp_all
  have keep': "keepsLevel config level ?t' (buckets (step configs c rl) k)"
    using quiet_step_keepsLevel [of config configs k level t rl c] wf cfg Cons.prems(1) q1 s1
    by blast
  have "last (t # concat (map readings (c # cs))) = last (?t' # concat (map readings cs))"
    by (cases "concat (map readings cs) = []") auto
  with Cons.IH [OF keep' q2 s2] show ?case by simp
qed

lemma quiet_step_absent:
  assumes "buckets rl k = None" and "quietFor k c rl"
  shows "buckets (step configs c rl) k = None"
proof (cases c)
  case (Acquire k' tCreate tRefill tEnqueue)
  with assms(2) have "k' \<noteq> k" by simp
  from acquire_other [OF this] Acquire assms(1) show ?thesis by simp
next
  case (Iterate tCreate tRefill)
  with assms(2) have "case queue rl of [] \<Rightarrow> True | entry # rest \<Rightarrow> key entry \<noteq> k" by simp
  from iteration_other [OF this] Iterate assms(1) show ?thesis by simp
next
  case (Available k' now)
  show ?thesis
  proof (cases "k' = k")
    case True
    with Available assms(1) show ?thesis
      by (simp add: getAvailableTokens_def split: option.splits)
  next
    case False
    from available_other [OF this] Available assms(1) show ?thesis by simp
  qed
next
  case Reset
  then show ?thesis by (simp add: reset_def)
qed

lemma quiet_run_absent:
  "buckets rl k = None \<Longrightarrow> quietRun configs k cs rl \<Longrightarrow> buckets (run configs cs rl) k = None"
  by (induction cs arbitrary: rl) (simp_all add: quiet_step_absent)

text \<open>
  C9. For a well-formed configuration, take two calls of \<open>getAvailableTokens\<close> for a key,
  separated by any operations that are no acquisition for that key, with clock readings
  that never go back: the second call does not report less than the first.  The floor is
  taken of the value returned only: the bucket keeps the refilled count with its
  fractional part.
\<close>

theorem available_tokens_monotone:
  assumes "wellFormed configs"
    and "sorted (now1 # concat (map readings mid) @ [now2])"
    and "quietRun configs k mid (snd (getAvailableTokens configs k now1 rl))"
  shows "fst (getAvailableTokens configs k now1 rl) \<le>
           fst (getAvailableTokens configs k now2
                 (run configs mid (snd (getAvailableTokens configs k now1 rl)))) \<and>
         (\<forall>config bucket. configs k = Some config \<and> buckets rl k = Some bucket \<longrightarrow>
            buckets (snd (getAvailableTokens configs k now1 rl)) k =
              Some (refillBucket bucket config now1) \<and>
            fst (getAvailableTokens configs k now1 rl) =
              of_int \<lfloor>tokens (refillBucket bucket config now1)\<rfloor>)"
proof (cases "configs k")
  case None
  then show ?thesis by (simp add: getAvailableTokens_def)
next
  case (Some config)
  let ?rl1 = "snd (getAvailableTokens configs k now1 rl)"
  let ?rl2 = "run configs mid ?rl1"
  let ?t = "last (now1 # concat (map readings mid))"
  from assms(1) Some have wf: "0 \<le> maxRequests config" "0 < windowMs config"
    unfolding wellFormed_def by auto
  from assms(2) have s: "sorted (now1 # concat (map readings mid))"
    and all: "\<forall>x \<in> set (now1 # concat (map readings mid)). x \<le> now2"
    by (simp_all add: sorted_append)
  have "?t \<in> set (now1 # concat (map readings mid))"
    by (rule last_in_set) simp
  with all have le: "?t \<le> now2" by blast
  show ?thesis
  proof (cases "buckets rl k")
    case None
    then have "buckets ?rl1 k = None"
      using Some by (simp add: getAvailableTokens_def)
    from quiet_run_absent [OF this assms(3)] have "buckets ?rl2 k = None" .
    with None Some show ?thesis by (simp add: getAvailableTokens_def)
  next
    case (Some bucket)
    let ?b1 = "refillBucket bucket config now1"
    have stored: "buckets ?rl1 k = Some ?b1"
      and v1: "fst (getAvailableTokens configs k now1 rl) = of_int \<lfloor>tokens ?b1\<rfloor>"
      using Some \<open>configs k = Some config\<close> by (simp_all add: getAvailableTokens_def Let_def)
    have "keepsLevel config (tokens ?b1) now1 (buckets ?rl1 k)"
      unfolding stored by (simp add: keepsLevel_def refillBucket_capped) (simp add: refillBucket_def Let_def)
    with quiet_run_keepsLevel [of config configs k "tokens ?b1" now1 ?rl1 mid]
      wf \<open>configs k = Some config\<close> assms(3) s
    have keep: "keepsLevel config (tokens ?b1) ?t (buckets ?rl2 k)" by blast
    have "real_of_int \<lfloor>tokens ?b1\<rfloor> \<le> fst (getAvailableTokens configs k now2 ?rl2)"
    proof (cases "buckets ?rl2 k")
      case None
      have "real_of_int \<lfloor>tokens ?b1\<rfloor> \<le> tokens ?b1" by simp
      also have "\<dots> \<le> maxRequests config" by (rule refillBucket_capped)
      finally show ?thesis
        using None \<open>configs k = Some config\<close> by (simp add: getAvailableTokens_def)
    next
      case (Some bucket2)
      with keep have b: "tokens ?b1 \<le> tokens bucket2" "tokens bucket2 \<le> maxRequests config"
        "lastRefill bucket2 \<le> ?t"
        by (simp_all add: keepsLevel_def)
      have "tokens bucket2 \<le> tokens (refillBucket bucket2 config now2)"
        using b le wf by (intro refillBucket_raises) simp_all
      with b have "tokens ?b1 \<le> tokens (refillBucket bucket2 config now2)" by simp
      then have "\<lfloor>tokens ?b1\<rfloor> \<le> \<lfloor>tokens (refillBucket bucket2 config now2)\<rfloor>"
        by (rule floor_mono)
      then show ?thesis
        using Some \<open>configs k = Some config\<close> by (simp add: getAvailableTokens_def Let_def)
    qed
    with v1 stored Some \<open>configs k = Some config\<close> show ?thesis by simp
  qed
qed

theorem available_tokens_monotone_witness:
  "wellFormed twoSlots \<and>
   sorted (250 # concat (map readings [Available ''test'' 500]) @ [750]) \<and>
   quietRun twoSlots ''test'' [Available ''test'' 500]
     (snd (getAvailableTokens twoSlots ''test'' 250 halfUsed)) \<and>
   fst (getAvailableTokens twoSlots ''test'' 250 halfUsed) = 1 \<and>
   buckets (snd (getAvailableTokens twoSlots ''test'' 250 halfUsed)) ''test'' =
     Some \<lparr>tokens = 3 / 2, lastRefill = 250\<rparr> \<and>
   fst (getAvailableTokens twoSlots ''test'' 750
         (run twoSlots [Available ''test'' 500]
           (snd (getAvailableTokens twoSlots ''test'' 250 halfUsed)))) = 2 \<and>
   fst (getAvailableTokens twoSlots ''test'' 250 halfUsed) \<le>
   fst (getAvailableTokens twoSlots ''test'' 750
         (run twoSlots [Available ''test'' 500]
           (snd (getAvailableTokens twoSlots ''test'' 250 halfUsed))))"
proof -
  have h1: "wellFormed twoSlots"
    by (simp add: wellFormed_def twoSlots_def)
  have h2: "sorted (250 # concat (map readings [Available ''test'' 500]) @ [750::real])"
    by simp
  have h3: "quietRun twoSlots ''test'' [Available ''test'' 500]
     (snd (getAvailableTokens twoSlots ''test'' 250 halfUsed))"
    by simp
  have e: "fst (getAvailableTokens twoSlots ''test'' 250 halfUsed) = 1 \<and>
   buckets (snd (getAvailableTokens twoSlots ''test'' 250 halfUsed)) ''test'' =
     Some \<lparr>tokens = 3 / 2, lastRefill = 250\<rparr> \<and>
   fst (getAvailableTokens twoSlots ''test'' 750
         (run twoSlots [Available ''test'' 500]
           (snd (getAvailableTokens twoSlots ''test'' 250 halfUsed)))) = 2"
    by (simp add: halfUsed_def twoSlots_def limiter_defs)
  from available_tokens_monotone [OF h1 h2 h3] h1 h2 h3 e show ?thesis by blast
qed


section \<open>Properties of the rate limiter: the wait queue\<close>

lemma getOrCreateBucket_fields:
  "queue (snd (getOrCreateBucket k config now rl)) = queue rl \<and>
   resolved (snd (getOrCreateBucket k config now rl)) = resolved rl \<and>
   callers (snd (getOrCreateBucket k config now rl)) = callers rl \<and>
   processingQueue (snd (getOrCreateBucket k config now rl)) = processingQueue rl"
  by (simp add: getOrCreateBucket_def Let_def split: option.splits)

lemma acquire_history:
  "(queue (snd (acquire configs k tCreate tRefill tEnqueue rl)) = queue rl \<and>
    callers (snd (acquire configs k tCreate tRefill tEnqueue rl)) = callers rl \<or>
    queue (snd (acquire configs k tCreate tRefill tEnqueue rl)) =
      queue rl @ [\<lparr>key = k, resolve = callers rl, enqueueTime = tEnqueue\<rparr>] \<and>
    callers (snd (acquire configs k tCreate tRefill tEnqueue rl)) = callers rl + 1) \<and>
   resolved (snd (acquire configs k tCreate tRefill tEnqueue rl)) = resolved rl"
proof (cases "configs k")
  case None
  then show ?thesis by (simp add: acquire_def)
next
  case (Some config)
  obtain bucket0 rl1 where get: "getOrCreateBucket k config tCreate rl = (bucket0, rl1)"
    by (cases "getOrCreateBucket k config tCreate rl")
  from getOrCreateBucket_fields [of k config tCreate rl] get
  have "queue rl1 = queue rl" "resolved rl1 = resolved rl" "callers rl1 = callers rl"
    by simp_all
  then show ?thesis
    by (simp add: acquire_def Some get Let_def processQueue_def)
qed

lemma iteration_history:
  "(queue (snd (processQueueIteration configs tCreate tRefill rl)) = queue rl \<and>
    resolved (snd (processQueueIteration configs tCreate tRefill rl)) = resolved rl \<or>
    (\<exists>entry rest. queue rl = entry # rest \<and>
       queue (snd (processQueueIteration configs tCreate tRefill rl)) = rest \<and>
       resolved (snd (processQueueIteration configs tCreate tRefill rl)) = resolved rl @ [entry])) \<and>
   callers (snd (processQueueIteration configs tCreate tRefill rl)) = callers rl"
proof (cases "queue rl")
  case Nil
  then show ?thesis by (simp add: processQueueIteration_def)
next
  case (Cons entry rest)
  show ?thesis
  proof (cases "configs (key entry)")
    case None
    with Cons show ?thesis by (simp add: processQueueIteration_def)
  next
    case (Some config)
    obtain bucket0 rl1 where get: "getOrCreateBucket (key entry) config tCreate rl = (bucket0, rl1)"
      by (cases "getOrCreateBucket (key entry) config tCreate rl")
    from getOrCreateBucket_fields [of "key entry" config tCreate rl] get
    have "queue rl1 = queue rl" "resolved rl1 = resolved rl" "callers rl1 = callers rl"
      by simp_all
    then show ?thesis
      by (simp add: processQueueIteration_def Cons Some get Let_def)
  qed
qed

lemma available_history:
  "queue (snd (getAvailableTokens configs k now rl)) = queue rl \<and>
   resolved (snd (getAvailableTokens configs k now rl)) = resolved rl \<and>
   callers (snd (getAvailableTokens configs k now rl)) = callers rl"
  by (simp add: getAvailableTokens_def Let_def split: option.splits)

lemma step_inOrder:
  assumes "inOrder rl"
  shows "inOrder (step configs c rl)"
proof (cases c)
  case (Acquire k tCreate tRefill tEnqueue)
  from acquire_history [of configs k tCreate tRefill tEnqueue rl] assms Acquire
  show ?thesis
    unfolding inOrder_def by (auto simp: sorted_wrt_append less_Suc_eq)
next
  case (Iterate tCreate tRefill)
  from iteration_history [of configs tCreate tRefill rl] assms Iterate
  show ?thesis
    unfolding inOrder_def by auto
next
  case (Available k now)
  from available_history [of configs k now rl] assms Available
  show ?thesis
    unfolding inOrder_def by simp
next
  case Reset
  with assms show ?thesis
    unfolding inOrder_def by (simp add: reset_def sorted_wrt_append)
qed

lemma run_inOrder:
  "inOrder rl \<Longrightarrow> inOrder (run configs cs rl)"
  by (induction cs arbitrary: rl) (simp_all add: step_inOrder)


lemma step_inArrivalOrder:
  assumes "inArrivalOrder rl" and "c \<noteq> Reset"
  shows "inArrivalOrder (step configs c rl)"
proof (cases c)
  case (Acquire k tCreate tRefill tEnqueue)
  from acquire_history [of configs k tCreate tRefill tEnqueue rl] assms Acquire
  show ?thesis
    unfolding inArrivalOrder_def by auto
next
  case (Iterate tCreate tRefill)
  from iteration_history [of configs tCreate tRefill rl] assms Iterate
  show ?thesis
    unfolding inArrivalOrder_def by auto
next
  case (Available k now)
  from available_history [of configs k now rl] assms Available
  show ?thesis
    unfolding inArrivalOrder_def by simp
next
  case Reset
  with assms show ?thesis by simp
qed

lemma run_inArrivalOrder:
  "inArrivalOrder rl \<Longrightarrow> Reset \<notin> set cs \<Longrightarrow> inArrivalOrder (run configs cs rl)"
proof (induction cs arbitrary: rl)
  case Nil
  then show ?case by simp
next
  case (Cons c cs)
  from Cons.prems have "c \<noteq> Reset" and rest: "Reset \<notin> set cs" by auto
  from step_inArrivalOrder [OF Cons.prems(1) this(1)]
  have "inArrivalOrder (step configs c rl)" .
  from Cons.IH [OF this rest] show ?case by simp
qed

lemma inArrivalOrder_new: "inArrivalOrder newRateLimiter"
  by (simp add: inArrivalOrder_def newRateLimiter_def)

lemma inOrder_new: "inOrder newRateLimiter"
  by (simp add: inOrder_def newRateLimiter_def)

lemma acquire_numbers_enqueues:
  assumes "fst (acquire configs k tCreate tRefill tEnqueue rl) = Pending n"
  shows "n = callers rl \<and> callers (snd (acquire configs k tCreate tRefill tEnqueue rl)) = n + 1 \<and>
    queue (snd (acquire configs k tCreate tRefill tEnqueue rl)) =
      queue rl @ [\<lparr>key = k, resolve = n, enqueueTime = tEnqueue\<rparr>]"
proof (cases "configs k")
  case None
  with assms show ?thesis by (simp add: acquire_def)
next
  case (Some config)
  obtain bucket0 rl1 where get: "getOrCreateBucket k config tCreate rl = (bucket0, rl1)"
    by (cases "getOrCreateBucket k config tCreate rl")
  from getOrCreateBucket_fields [of k config tCreate rl] get
  have "queue rl1 = queue rl" "callers rl1 = callers rl"
    by simp_all
  with assms show ?thesis
    by (simp add: acquire_def Some get Let_def processQueue_def split: if_splits)
qed

lemma run_append: "run configs (xs @ ys) rl = run configs ys (run configs xs rl)"
  by (induction xs arbitrary: rl) simp_all

text \<open>
  The order of grants.  Callers are numbered in the order in which \<open>acquire\<close> queues them
  (\<open>acquire_numbers_enqueues\<close>).  For every interleaving of acquisitions, drain iterations
  and queries on a new limiter, the callers granted so far followed by the callers still
  queued are all the callers, in the order of their numbers: a caller is granted only
  after every caller queued before it, across keys and hence for one key.  When resets
  occur as well, the callers granted are still granted in the order of their numbers and
  no caller still queued was queued before a caller already granted; but a reset removes
  queued callers without granting them, so a caller queued later can then be granted
  while an earlier one never is.
\<close>

lemma grants_in_arrival_order:
  "(Reset \<notin> set cs \<longrightarrow>
      map resolve (resolved (run configs cs newRateLimiter)) @
      map resolve (queue (run configs cs newRateLimiter)) =
        [0..<callers (run configs cs newRateLimiter)]) \<and>
   (\<forall>i j. i < j \<and> j < length (resolved (run configs cs newRateLimiter)) \<longrightarrow>
      resolve (resolved (run configs cs newRateLimiter) ! i) <
      resolve (resolved (run configs cs newRateLimiter) ! j)) \<and>
   (\<forall>A B. A \<in> set (queue (run configs cs newRateLimiter)) \<and>
      B \<in> set (resolved (run configs cs newRateLimiter)) \<longrightarrow> resolve B < resolve A) \<and>
   (\<forall>i j. i < j \<and> j < length (queue (run configs cs newRateLimiter)) \<longrightarrow>
      resolve (queue (run configs cs newRateLimiter) ! i) <
      resolve (queue (run configs cs newRateLimiter) ! j))"
proof -
  let ?rl = "run configs cs newRateLimiter"
  have "inOrder ?rl"
    by (rule run_inOrder [OF inOrder_new])
  then have a: "sorted_wrt (<) (map resolve (resolved ?rl))"
    and b: "sorted_wrt (<) (map resolve (queue ?rl))"
    and c: "\<forall>B \<in> set (resolved ?rl). \<forall>A \<in> set (queue ?rl). resolve B < resolve A"
    unfolding inOrder_def by (auto simp: sorted_wrt_append)
  from a have "\<forall>i j. i < j \<and> j < length (resolved ?rl) \<longrightarrow>
      resolve (resolved ?rl ! i) < resolve (resolved ?rl ! j)"
    by (simp add: sorted_wrt_iff_nth_less)
  moreover from b have "\<forall>i j. i < j \<and> j < length (queue ?rl) \<longrightarrow>
      resolve (queue ?rl ! i) < resolve (queue ?rl ! j)"
    by (simp add: sorted_wrt_iff_nth_less)
  moreover have "Reset \<notin> set cs \<longrightarrow>
      map resolve (resolved ?rl) @ map resolve (queue ?rl) = [0..<callers ?rl]"
    using run_inArrivalOrder [OF inArrivalOrder_new, of cs configs]
    by (simp add: inArrivalOrder_def)
  ultimately show ?thesis using c by blast
qed

lemma step_forgotten:
  assumes "forgotten n rl"
  shows "forgotten n (step configs c rl)"
proof (cases c)
  case (Acquire k tCreate tRefill tEnqueue)
  from acquire_history [of configs k tCreate tRefill tEnqueue rl] assms Acquire
  show ?thesis
    unfolding forgotten_def by auto
next
  case (Iterate tCreate tRefill)
  from iteration_history [of configs tCreate tRefill rl] assms Iterate
  show ?thesis
    unfolding forgotten_def by auto
next
  case (Available k now)
  from available_history [of configs k now rl] assms Available
  show ?thesis
    unfolding forgotten_def by simp
next
  case Reset
  with assms show ?thesis
    unfolding forgotten_def by (simp add: reset_def)
qed

lemma run_forgotten:
  "forgotten n rl \<Longrightarrow> forgotten n (run configs cs rl)"
  by (induction cs arbitrary: rl) (simp_all add: step_forgotten)

lemma forgotten_pending:
  "forgotten n rl \<Longrightarrow> n \<in> set (pendingCallers rl)"
  by (auto simp: forgotten_def pendingCallers_def)

lemma reset_restores_capacity:
  "queue (reset rl) = [] \<and>
   (configs k = Some config \<longrightarrow>
      fst (getAvailableTokens configs k now (reset rl)) = maxRequests config)"
  by (simp add: reset_def getAvailableTokens_def)

text \<open>
  C4, evaluated where the code departs from it.  One slot per second; a first acquisition
  takes the token, a second one is queued as caller 0, then the limiter is reset.  The
  queue is empty and the key reports its capacity again, but the \<open>resolve\<close> of caller 0
  has not been called, and it is not called by any later sequence of operations: the
  caller stays pending.
\<close>

theorem reset_strands_queued_caller:
  "fst (acquire oneSlot ''k'' 0 0 0 (run oneSlot [Acquire ''k'' 0 0 0] newRateLimiter)) = Pending 0 \<and>
   queue (run oneSlot strandingRun newRateLimiter) = [] \<and>
   fst (getAvailableTokens oneSlot ''k'' 0 (run oneSlot strandingRun newRateLimiter)) = 1 \<and>
   resolved (run oneSlot strandingRun newRateLimiter) = [] \<and>
   pendingCallers (run oneSlot strandingRun newRateLimiter) = [0] \<and>
   0 \<in> set (pendingCallers (run oneSlot (strandingRun @ cs) newRateLimiter))"
proof -
  have f: "forgotten 0 (run oneSlot strandingRun newRateLimiter)"
    by (simp add: forgotten_def strandingRun_def oneSlot_def limiter_defs)
  have "0 \<in> set (pendingCallers (run oneSlot (strandingRun @ cs) newRateLimiter))"
    unfolding run_append by (rule forgotten_pending [OF run_forgotten [OF f]])
  moreover have
    "fst (acquire oneSlot ''k'' 0 0 0 (run oneSlot [Acquire ''k'' 0 0 0] newRateLimiter)) = Pending 0"
    by (simp add: oneSlot_def limiter_defs)
  moreover have "queue (run oneSlot strandingRun newRateLimiter) = [] \<and>
   fst (getAvailableTokens oneSlot ''k'' 0 (run oneSlot strandingRun newRateLimiter)) = 1 \<and>
   resolved (run oneSlot strandingRun newRateLimiter) = [] \<and>
   pendingCallers (run oneSlot strandingRun newRateLimiter) = [0]"
    by (simp add: strandingRun_def oneSlot_def limiter_defs)
  ultimately show ?thesis by simp
qed

text \<open>
  C5, evaluated where the code departs from it.  One slot per second.  A first acquisition
  takes the token and a second one is queued for the key as caller 0; the limiter is
  reset; again a first acquisition takes the token and the next is queued for the same key
  as caller 1.  One second later the drain loop grants caller 1.  Caller 0, queued before
  caller 1, has not been granted and is not granted by any later sequence of operations.
\<close>

theorem reset_breaks_fifo:
  "fst (acquire oneSlot ''k'' 0 0 0 (run oneSlot [Acquire ''k'' 0 0 0] newRateLimiter)) =
     Pending 0 \<and>
   fst (acquire oneSlot ''k'' 0 0 0
         (run oneSlot
           [Acquire ''k'' 0 0 0, Acquire ''k'' 0 0 0, Iterate 0 0, Reset, Acquire ''k'' 0 0 0]
           newRateLimiter)) = Pending 1 \<and>
   resolved (run oneSlot overtakingRun newRateLimiter) =
     [\<lparr>key = ''k'', resolve = 1, enqueueTime = 0\<rparr>] \<and>
   queue (run oneSlot overtakingRun newRateLimiter) = [] \<and>
   pendingCallers (run oneSlot overtakingRun newRateLimiter) = [0] \<and>
   0 \<in> set (pendingCallers (run oneSlot (overtakingRun @ cs) newRateLimiter))"
proof -
  have f: "forgotten 0 (run oneSlot overtakingRun newRateLimiter)"
    by (simp add: forgotten_def overtakingRun_def oneSlot_def limiter_defs)
  have "0 \<in> set (pendingCallers (run oneSlot (overtakingRun @ cs) newRateLimiter))"
    unfolding run_append by (rule forgotten_pending [OF run_forgotten [OF f]])
  moreover have
    "fst (acquire oneSlot ''k'' 0 0 0 (run oneSlot [Acquire ''k'' 0 0 0] newRateLimiter)) =
       Pending 0"
    by (simp add: oneSlot_def limiter_defs)
  moreover have
    "fst (acquire oneSlot ''k'' 0 0 0
         (run oneSlot
           [Acquire ''k'' 0 0 0, Acquire ''k'' 0 0 0, Iterate 0 0, Reset, Acquire ''k'' 0 0 0]
           newRateLimiter)) = Pending 1"
    by (simp add: oneSlot_def limiter_defs)
  moreover have "resolved (run oneSlot overtakingRun newRateLimiter) =
     [\<lparr>key = ''k'', resolve = 1, enqueueTime = 0\<rparr>] \<and>
   queue (run oneSlot overtakingRun newRateLimiter) = [] \<and>
   pendingCallers (run oneSlot overtakingRun newRateLimiter) = [0]"
    by (simp add: overtakingRun_def oneSlot_def limiter_defs)
  ultimately show ?thesis by simp
qed

end
